theory Spec2Isabelle
  imports Main "HOL-Library.Word" "HOL-Library.Sublist"
begin

section \<open>The serializer of toml11 (include/toml11/serializer.hpp)\<close>

text \<open>
  A shallow embedding of \<^verbatim>\<open>toml::detail::serializer<TC>\<close>. The class members
  \<^verbatim>\<open>spec_\<close>, \<^verbatim>\<open>force_inline_\<close>, \<^verbatim>\<open>current_indent_\<close> and \<^verbatim>\<open>keys_\<close> form a record that
  every member function takes and returns; a \<^verbatim>\<open>throw\<close> is the left summand of the
  result. Strings are byte lists.
\<close>

subsection \<open>Characters the source writes with escapes\<close>

definition dquote :: char where "dquote = CHR 0x22"
definition squote :: char where "squote = CHR 0x27"
definition bslash :: char where "bslash = CHR 0x5C"
definition newline :: char where "newline = CHR 0x0A"

subsection \<open>Errors\<close>

text \<open>
  One constructor for each \<^verbatim>\<open>throw serialization_error\<close> of the file, named after the
  error kinds of the specification; then the type error of a typed accessor of
  \<^verbatim>\<open>basic_value\<close> applied to a value of another kind, \<^verbatim>\<open>value()\<close> of an empty
  optional, and an \<^verbatim>\<open>assert\<close> that does not hold.
\<close>

datatype error =
    InvalidValue
  | NegativeNonDecimal
  | BadIntegerRadix
  | InvalidLiteralString
  | InvalidStringForm
  | MissingKey
  | ImplicitTableChild
  | BadCast
  | BadOptionalAccess
  | AssertFailed

subsection \<open>Specification level and formatting hints\<close>

record spec =
  version :: "nat \<times> nat \<times> nat"
  ext_null_value :: bool
  ext_num_suffix :: bool
  ext_hex_float :: bool
  v1_1_0_add_escape_sequence_e :: bool
  v1_1_0_add_escape_sequence_x :: bool

text \<open>
  The format enumerations are scoped enums over a byte. Where the source has a
  \<^verbatim>\<open>default:\<close> branch for a value outside the enumerators, the datatype has a
  constructor for such a value.
\<close>

datatype integer_format = dec | bin | oct | hex | integer_format_other nat

record integer_format_info =
  int_fmt :: integer_format
  uppercase :: bool
  width :: nat
  spacer :: nat
  int_suffix :: string

datatype floating_format = defaultfloat | fixed | scientific | hexfloat | floating_format_other nat

record floating_format_info =
  float_fmt :: floating_format
  prec :: nat
  float_suffix :: string

datatype string_format = basic | literal | multiline_basic | multiline_literal
  | string_format_other nat

record string_format_info =
  str_fmt :: string_format
  start_with_newline :: bool

subsection \<open>Number formatting of the standard stream\<close>

text \<open>\<^verbatim>\<open>static_cast<int>\<close> of a \<^verbatim>\<open>std::size_t\<close>: the low 32 bits, read as signed.\<close>

definition to_int :: "nat \<Rightarrow> int" where
  "to_int n = sint (word_of_nat n :: 32 word)"

definition digit_char :: "bool \<Rightarrow> nat \<Rightarrow> char" where
  "digit_char up d =
     (if d < 10 then char_of (48 + d)
      else if up then char_of (65 + (d - 10)) else char_of (97 + (d - 10)))"

function to_digits :: "nat \<Rightarrow> nat \<Rightarrow> nat list" where
  "to_digits b n = (if b < 2 \<or> n < b then [n] else to_digits b (n div b) @ [n mod b])"
  by pat_completeness auto
termination
  by (relation "measure snd") auto

declare to_digits.simps [simp del]

text \<open>
  \<^verbatim>\<open>oss << std::setw(w) << i\<close> in the classic locale with right adjustment: the sign and
  the digits in the base, preceded by as many fill characters as the width asks for. A
  width that is not positive pads nothing.
\<close>

definition put_integer :: "nat \<Rightarrow> bool \<Rightarrow> int \<Rightarrow> char \<Rightarrow> int \<Rightarrow> string" where
  "put_integer base up w fill i =
     (let s = (if i < 0 then ''-'' else '''') @ map (digit_char up) (to_digits base (nat \<bar>i\<bar>))
      in replicate (nat (w - int (length s))) fill @ s)"

subsection \<open>Integer encoder\<close>

text \<open>The loop of the lambda \<^verbatim>\<open>insert_spacer\<close> over the reversed string.\<close>

fun spacer_loop :: "nat \<Rightarrow> string \<Rightarrow> nat \<Rightarrow> string \<Rightarrow> string" where
  "spacer_loop sp [] counter spaced = spaced"
| "spacer_loop sp (c # cs) counter spaced =
     spacer_loop sp cs (counter + 1)
       ((if counter \<noteq> 0 \<and> counter mod sp = 0 then spaced @ ''_'' else spaced) @ [c])"

definition insert_spacer :: "integer_format_info \<Rightarrow> string \<Rightarrow> string" where
  "insert_spacer fmt s =
     (if spacer fmt = 0 then s
      else
        let has_sign = (s \<noteq> [] \<and> (hd s = CHR ''+'' \<or> hd s = CHR ''-''));
            sign = (if has_sign then [hd s] else []);
            s1 = (if has_sign then tl s else s);
            spaced = spacer_loop (spacer fmt) (rev s1) 0 [];
            spaced1 = (if spaced \<noteq> [] \<and> last spaced = CHR ''_'' then butlast spaced else spaced)
        in sign @ rev spaced1)"

text \<open>
  The binary branch is reached with \<^verbatim>\<open>i >= 0\<close> only, so \<^verbatim>\<open>x\<close> is a natural number
  and \<^verbatim>\<open>x >>= 1\<close> halves it.
\<close>

function bin_while :: "nat \<Rightarrow> nat \<Rightarrow> string \<Rightarrow> nat \<Rightarrow> string \<times> nat" where
  "bin_while sp x tmp bits =
     (if x \<noteq> 0
      then bin_while sp (x div 2)
             ((if sp \<noteq> 0 \<and> bits \<noteq> 0 \<and> bits mod sp = 0 then tmp @ ''_'' else tmp)
                @ (if x mod 2 = 1 then ''1'' else ''0''))
             (bits + 1)
      else (tmp, bits))"
  by pat_completeness auto
termination
  by (relation "measure (\<lambda>(sp, x, tmp, bits). x)") auto

declare bin_while.simps [simp del]

function bin_for :: "nat \<Rightarrow> nat \<Rightarrow> string \<Rightarrow> nat \<Rightarrow> string" where
  "bin_for sp w tmp bits =
     (if bits < w
      then bin_for sp w
             ((if sp \<noteq> 0 \<and> bits \<noteq> 0 \<and> bits mod sp = 0 then tmp @ ''_'' else tmp) @ ''0'')
             (bits + 1)
      else tmp)"
  by pat_completeness auto
termination
  by (relation "measure (\<lambda>(sp, w, tmp, bits). w - bits)") auto

declare bin_for.simps [simp del]

definition serialize_integer :: "spec \<Rightarrow> int \<Rightarrow> integer_format_info \<Rightarrow> error + string" where
  "serialize_integer sp i fmt =
     (if int_fmt fmt = dec
      then
        let retval = insert_spacer fmt (put_integer 10 False (to_int (width fmt)) CHR '' '' i)
        in Inr (if ext_num_suffix sp \<and> int_suffix fmt \<noteq> []
                then retval @ ''_'' @ int_suffix fmt else retval)
      else if i < 0 then Inl NegativeNonDecimal
      else (case int_fmt fmt of
          hex \<Rightarrow> Inr (''0x'' @ insert_spacer fmt
                   (put_integer 16 (uppercase fmt) (to_int (width fmt)) CHR ''0'' i))
        | oct \<Rightarrow> Inr (''0o'' @ insert_spacer fmt
                   (put_integer 8 False (to_int (width fmt)) CHR ''0'' i))
        | bin \<Rightarrow>
            (let (tmp, bits) = bin_while (spacer fmt) (nat i) [] 0
             in Inr (''0b'' @ rev (bin_for (spacer fmt) (width fmt) tmp bits)))
        | _ \<Rightarrow> Inl BadIntegerRadix))"

subsection \<open>Floating encoder\<close>

text \<open>
  A floating value as the encoder reads it: \<^verbatim>\<open>isnan\<close>, \<^verbatim>\<open>isinf\<close>, \<^verbatim>\<open>signbit\<close>, and for a
  finite value the sign, the significand and the binary exponent.
\<close>

datatype floating = NaN bool | Infinity bool | Finite bool nat int

datatype floatfield = ff_default | ff_fixed | ff_scientific | ff_hexfloat

text \<open>
  What the serializer takes from outside serializer.hpp: the stream output of a finite floating
  value (under a float field and a precision, if one was set), of a date and of a time
  offset, and the scanner of an unquoted key.
\<close>

record local_date =
  year :: int
  month :: nat
  day :: nat

record local_time =
  hour :: nat
  minute :: nat
  second :: nat
  millisecond :: nat
  microsecond :: nat
  nanosecond :: nat

record time_offset =
  off_hour :: int
  off_minute :: int

record library =
  put_floating :: "floatfield \<Rightarrow> int option \<Rightarrow> floating \<Rightarrow> string"
  put_local_date :: "local_date \<Rightarrow> string"
  put_time_offset :: "time_offset \<Rightarrow> string"
  unquoted_key :: "spec \<Rightarrow> string \<Rightarrow> bool"

text \<open>\<^verbatim>\<open>std::numeric_limits<double>::max_digits10\<close>.\<close>

definition max_digits10 :: int where "max_digits10 = 17"

definition with_float_suffix :: "spec \<Rightarrow> floating_format_info \<Rightarrow> string \<Rightarrow> string" where
  "with_float_suffix sp fmt s =
     (if ext_num_suffix sp \<and> float_suffix fmt \<noteq> [] then s @ ''_'' @ float_suffix fmt else s)"

definition set_prec :: "floating_format_info \<Rightarrow> int option" where
  "set_prec fmt = (if prec fmt \<noteq> 0 then Some (to_int (prec fmt)) else None)"

fun serialize_floating :: "library \<Rightarrow> spec \<Rightarrow> floating \<Rightarrow> floating_format_info \<Rightarrow> string" where
  "serialize_floating L sp (NaN neg) fmt =
     with_float_suffix sp fmt ((if neg then ''-'' else []) @ ''nan'')"
| "serialize_floating L sp (Infinity neg) fmt =
     with_float_suffix sp fmt ((if neg then ''-'' else []) @ ''inf'')"
| "serialize_floating L sp (Finite neg m e) fmt =
     (case float_fmt fmt of
        defaultfloat \<Rightarrow>
          (let s = put_floating L ff_default (set_prec fmt) (Finite neg m e);
               s1 = (if CHR ''.'' \<notin> set s \<and> CHR ''e'' \<notin> set s \<and> CHR ''E'' \<notin> set s
                     then s @ ''.0'' else s)
           in with_float_suffix sp fmt s1)
      | fixed \<Rightarrow> with_float_suffix sp fmt (put_floating L ff_fixed (set_prec fmt) (Finite neg m e))
      | scientific \<Rightarrow>
          with_float_suffix sp fmt (put_floating L ff_scientific (set_prec fmt) (Finite neg m e))
      | hexfloat \<Rightarrow>
          (if ext_hex_float sp then put_floating L ff_hexfloat None (Finite neg m e)
           else put_floating L ff_scientific (Some max_digits10) (Finite neg m e))
      | floating_format_other n \<Rightarrow> with_float_suffix sp fmt [])"

subsection \<open>String encoder\<close>

text \<open>
  The two hexadecimal digits of a control byte. The branch is taken for bytes up to
  \<^verbatim>\<open>0x7F\<close> only, where \<^verbatim>\<open>c / 16\<close> and \<^verbatim>\<open>c % 16\<close> do not depend on the signedness of
  \<^verbatim>\<open>char\<close>.
\<close>

definition hex_pair :: "char \<Rightarrow> string" where
  "hex_pair c =
     (let c1 = (of_char c :: nat) div 16; c2 = (of_char c :: nat) mod 16
      in [char_of (48 + c1), if c2 < 10 then char_of (48 + c2) else char_of (65 + (c2 - 10))])"

definition is_ctrl :: "char \<Rightarrow> bool" where
  "is_ctrl c =
     (let n = (of_char c :: nat) in n \<le> 0x08 \<or> (0x0A \<le> n \<and> n \<le> 0x1F) \<or> n = 0x7F)"

definition escape_ctrl :: "spec \<Rightarrow> char \<Rightarrow> string" where
  "escape_ctrl sp c =
     (if is_ctrl c
      then (if v1_1_0_add_escape_sequence_x sp then [bslash, CHR ''x'']
            else [bslash, CHR ''u'', CHR ''0'', CHR ''0'']) @ hex_pair c
      else [c])"

definition escape_basic_char :: "spec \<Rightarrow> char \<Rightarrow> string" where
  "escape_basic_char sp c =
     (if c = bslash then [bslash, bslash]
      else if c = dquote then [bslash, dquote]
      else if c = CHR 0x08 then [bslash, CHR ''b'']
      else if c = CHR 0x09 then [bslash, CHR ''t'']
      else if c = CHR 0x0C then [bslash, CHR ''f'']
      else if c = CHR 0x0A then [bslash, CHR ''n'']
      else if c = CHR 0x0D then [bslash, CHR ''r'']
      else if c = CHR 0x1B \<and> v1_1_0_add_escape_sequence_e sp then [bslash, CHR ''e'']
      else escape_ctrl sp c)"

definition escape_basic_string :: "spec \<Rightarrow> string \<Rightarrow> string" where
  "escape_basic_string sp s = concat (map (escape_basic_char sp) s)"

definition escape_ml_basic_char :: "spec \<Rightarrow> char \<Rightarrow> string" where
  "escape_ml_basic_char sp c =
     (if c = bslash then [bslash, bslash]
      else if c = CHR 0x08 then [bslash, CHR ''b'']
      else if c = CHR 0x09 then [bslash, CHR ''t'']
      else if c = CHR 0x0C then [bslash, CHR ''f'']
      else if c = CHR 0x0A then [newline]
      else if c = CHR 0x0D then [bslash, CHR ''r'']
      else if c = CHR 0x1B \<and> v1_1_0_add_escape_sequence_e sp then [bslash, CHR ''e'']
      else escape_ctrl sp c)"

text \<open>
  \<^verbatim>\<open>std::string::find(pattern)\<close>: the least position at which the pattern occurs, \<open>None\<close>
  for \<^verbatim>\<open>npos\<close>; and \<^verbatim>\<open>replace(pos, n, text)\<close>.
\<close>

fun find_str :: "string \<Rightarrow> string \<Rightarrow> nat option" where
  "find_str pat [] = (if pat = [] then Some 0 else None)"
| "find_str pat (c # cs) =
     (if prefix pat (c # cs) then Some 0 else map_option Suc (find_str pat cs))"

definition replace_str :: "string \<Rightarrow> nat \<Rightarrow> nat \<Rightarrow> string \<Rightarrow> string" where
  "replace_str s pos n text = take pos s @ text @ drop (pos + n) s"

definition three_quotes :: string where
  "three_quotes = [dquote, dquote, dquote]"

definition broken_quotes :: string where
  "broken_quotes = [dquote, dquote, bslash, dquote]"

lemma find_str_None_iff: "find_str pat s = None \<longleftrightarrow> \<not> sublist pat s"
  by (induction s) (auto simp: sublist_Cons_right)

lemma find_str_SomeD:
  "find_str three_quotes s = Some p \<Longrightarrow>
   \<exists>pre post. s = pre @ three_quotes @ post \<and> length pre = p \<and>
     find_str three_quotes (pre @ [dquote, dquote]) = None"
proof (induction s arbitrary: p)
  case Nil
  then show ?case by (simp add: three_quotes_def)
next
  case (Cons c cs)
  show ?case
  proof (cases "prefix three_quotes (c # cs)")
    case True
    then obtain post where "c # cs = three_quotes @ post" by (auto simp: prefix_def)
    moreover from True Cons.prems have "p = 0" by simp
    moreover have "find_str three_quotes [dquote, dquote] = None"
      by (simp add: three_quotes_def)
    ultimately show ?thesis by (intro exI[of _ "[]"] exI[of _ post]) simp
  next
    case False
    with Cons.prems obtain p' where p': "find_str three_quotes cs = Some p'" "p = Suc p'"
      by auto
    from Cons.IH[OF p'(1)] obtain pre post where
      h: "cs = pre @ three_quotes @ post" "length pre = p'"
         "find_str three_quotes (pre @ [dquote, dquote]) = None" by blast
    have "prefix (c # pre @ [dquote, dquote]) (c # cs)"
      using h(1) by (simp add: three_quotes_def)
    with False have "\<not> prefix three_quotes (c # pre @ [dquote, dquote])"
      using prefix_order.trans by blast
    with h p'(2) show ?thesis
      by (intro exI[of _ "c # pre"] exI[of _ post]) simp
  qed
qed

lemma find_str_skip:
  "find_str three_quotes u = None \<Longrightarrow> c \<noteq> dquote \<Longrightarrow>
   find_str three_quotes (u @ c # v) = map_option (\<lambda>k. k + length u + 1) (find_str three_quotes v)"
proof (induction u)
  case Nil
  then show ?case by (simp add: three_quotes_def option.map_comp comp_def)
next
  case (Cons a u)
  from Cons.prems have np: "\<not> prefix three_quotes (a # u)" and n: "find_str three_quotes u = None"
    by (auto split: if_splits)
  have "\<not> prefix three_quotes (a # u @ c # v)"
    using np Cons.prems(2)
    by (cases u; cases "tl u") (auto simp: three_quotes_def)
  then show ?case using Cons.IH[OF n Cons.prems(2)]
    by (simp add: option.map_comp comp_def)
qed

lemma find_str_le: "find_str pat s = Some p \<Longrightarrow> p + length pat \<le> length s"
  by (induction s arbitrary: p) (auto dest: prefix_length_le split: if_splits)

text \<open>
  The loop at the end of \<^verbatim>\<open>escape_ml_basic_string\<close>: while three consecutive quotes are
  found, the first occurrence is replaced by two quotes, a backslash and a quote. Each
  round moves the first occurrence to the right by more than the string grows, which is
  the termination argument.
\<close>

function break_quotes :: "string \<Rightarrow> string" where
  "break_quotes retval =
     (case find_str three_quotes retval of
        None \<Rightarrow> retval
      | Some found_3_quotes \<Rightarrow> break_quotes (replace_str retval found_3_quotes 3 broken_quotes))"
  by pat_completeness auto

lemma find_str_replace:
  assumes "find_str three_quotes s = Some p"
  shows "case find_str three_quotes (replace_str s p 3 broken_quotes) of
           None \<Rightarrow> True
         | Some p' \<Rightarrow> length (replace_str s p 3 broken_quotes) - p' < length s - p"
proof -
  from find_str_SomeD[OF assms] obtain pre post where
    h: "s = pre @ three_quotes @ post" "length pre = p"
       "find_str three_quotes (pre @ [dquote, dquote]) = None" by blast
  have r: "replace_str s p 3 broken_quotes = (pre @ [dquote, dquote]) @ bslash # (dquote # post)"
    using h(1,2) by (simp add: replace_str_def three_quotes_def broken_quotes_def)
  have ne: "bslash \<noteq> dquote" by (simp add: bslash_def dquote_def)
  have f: "find_str three_quotes (replace_str s p 3 broken_quotes) =
        map_option (\<lambda>k. k + length (pre @ [dquote, dquote]) + 1) (find_str three_quotes (dquote # post))"
    unfolding r by (rule find_str_skip[OF h(3) ne])
  show ?thesis
  proof (cases "find_str three_quotes (dquote # post)")
    case None
    then show ?thesis using f by simp
  next
    case (Some k)
    from find_str_le[OF Some] have "k + 3 \<le> length post + 1" by (simp add: three_quotes_def)
    then show ?thesis using f Some h(1,2) unfolding r by (simp add: three_quotes_def)
  qed
qed

termination break_quotes
  apply (relation "measure (\<lambda>s. case find_str three_quotes s of None \<Rightarrow> 0 | Some p \<Rightarrow> Suc (length s - p))")
   apply simp
  subgoal for retval p
    using find_str_replace[of retval p] by (auto split: option.splits)
  done

declare break_quotes.simps [simp del]

definition escape_ml_basic_string :: "spec \<Rightarrow> string \<Rightarrow> string" where
  "escape_ml_basic_string sp s = break_quotes (concat (map (escape_ml_basic_char sp) s))"

definition serialize_string :: "spec \<Rightarrow> string \<Rightarrow> string_format_info \<Rightarrow> error + string" where
  "serialize_string sp s fmt =
     (case str_fmt fmt of
        basic \<Rightarrow> Inr ([dquote] @ escape_basic_string sp s @ [dquote])
      | literal \<Rightarrow>
          (if newline \<in> set s then Inl InvalidLiteralString
           else Inr ([squote] @ s @ [squote]))
      | multiline_basic \<Rightarrow>
          Inr (three_quotes @ (if start_with_newline fmt then [newline] else [])
                 @ escape_ml_basic_string sp s @ three_quotes)
      | multiline_literal \<Rightarrow>
          Inr ([squote, squote, squote] @ (if start_with_newline fmt then [newline] else [])
                 @ s @ [squote, squote, squote])
      | string_format_other n \<Rightarrow> Inl InvalidStringForm)"

subsection \<open>Boolean and date-time encoders\<close>

definition serialize_boolean :: "bool \<Rightarrow> string" where
  "serialize_boolean b = (if b then ''true'' else ''false'')"

datatype datetime_delimiter_kind = upper_T | lower_t | space | delimiter_other nat

record local_time_format_info =
  lt_has_seconds :: bool
  lt_subsecond_precision :: nat

record local_datetime_format_info =
  ldt_delimiter :: datetime_delimiter_kind
  ldt_has_seconds :: bool
  ldt_subsecond_precision :: nat

record offset_datetime_format_info =
  odt_delimiter :: datetime_delimiter_kind
  odt_has_seconds :: bool
  odt_subsecond_precision :: nat

record local_datetime =
  ldt_date :: local_date
  ldt_time :: local_time

record offset_datetime =
  odt_date :: local_date
  odt_time :: local_time
  odt_offset :: time_offset

text \<open>
  \<^verbatim>\<open>oss << std::setfill('0') << std::setw(n) << static_cast<int>(x)\<close> for a field of a
  time, which is unsigned.
\<close>

definition put_field :: "nat \<Rightarrow> nat \<Rightarrow> string" where
  "put_field n x = put_integer 10 False (int n) CHR ''0'' (int x)"

definition format_local_time :: "local_time \<Rightarrow> bool \<Rightarrow> nat \<Rightarrow> string" where
  "format_local_time t has_seconds subsec_prec =
     put_field 2 (hour t) @ '':'' @ put_field 2 (minute t) @
     (if has_seconds
      then '':'' @ put_field 2 (second t) @
           (if subsec_prec \<noteq> 0
            then ''.'' @ take subsec_prec
                   (put_field 3 (millisecond t) @ put_field 3 (microsecond t)
                      @ put_field 3 (nanosecond t))
            else [])
      else [])"

definition delimiter_char :: "datetime_delimiter_kind \<Rightarrow> char" where
  "delimiter_char d =
     (case d of upper_T \<Rightarrow> CHR ''T'' | lower_t \<Rightarrow> CHR ''t'' | space \<Rightarrow> CHR '' ''
      | delimiter_other n \<Rightarrow> CHR ''T'')"

definition serialize_local_datetime ::
  "library \<Rightarrow> local_datetime \<Rightarrow> local_datetime_format_info \<Rightarrow> string" where
  "serialize_local_datetime L dt fmt =
     put_local_date L (ldt_date dt) @ [delimiter_char (ldt_delimiter fmt)] @
     format_local_time (ldt_time dt) (ldt_has_seconds fmt) (ldt_subsecond_precision fmt)"

definition serialize_offset_datetime ::
  "library \<Rightarrow> offset_datetime \<Rightarrow> offset_datetime_format_info \<Rightarrow> string" where
  "serialize_offset_datetime L odt fmt =
     put_local_date L (odt_date odt) @ [delimiter_char (odt_delimiter fmt)] @
     format_local_time (odt_time odt) (odt_has_seconds fmt) (odt_subsecond_precision fmt) @
     put_time_offset L (odt_offset odt)"

subsection \<open>Values\<close>

text \<open>
  The comment container of the type configuration: \<^verbatim>\<open>discard_comments\<close>, which is always
  empty, or \<^verbatim>\<open>preserve_comments\<close>, a vector of strings.
\<close>

datatype comment_type = discard_comments | preserve_comments "string list"

fun comments_empty :: "comment_type \<Rightarrow> bool" where
  "comments_empty discard_comments = True"
| "comments_empty (preserve_comments cs) = (cs = [])"

datatype indent_char = indent_space | indent_tab | indent_none

text \<open>
  The array and table renderers end their case distinction on the form with an
  \<^verbatim>\<open>assert\<close> that names the last enumerator, so these two enumerations have exactly their
  enumerators.
\<close>

datatype array_format = array_default_format | array_oneline | array_multiline | array_of_tables

datatype table_format =
  table_multiline | table_oneline | table_multiline_oneline | table_dotted | table_implicit

record array_format_info =
  a_fmt :: array_format
  a_indent_type :: indent_char
  a_body_indent :: int
  a_closing_indent :: int

record table_format_info =
  t_fmt :: table_format
  t_indent_type :: indent_char
  t_body_indent :: int
  t_name_indent :: int
  t_closing_indent :: int

text \<open>
  \<^verbatim>\<open>basic_value<TC>\<close>: the kind, the payload, the format hint of the kind and the comments.
  A table is the sequence of its entries in the iteration order of the container. The
  source location serves error messages only and is left out.
\<close>

datatype "value" =
    Boolean bool comment_type
  | Integer int integer_format_info comment_type
  | Floating floating floating_format_info comment_type
  | String string string_format_info comment_type
  | OffsetDatetime offset_datetime offset_datetime_format_info comment_type
  | LocalDatetime local_datetime local_datetime_format_info comment_type
  | LocalDate local_date comment_type
  | LocalTime local_time local_time_format_info comment_type
  | Array "value list" array_format_info comment_type
  | Table "(string \<times> value) list" table_format_info comment_type
  | Empty comment_type

fun comments :: "value \<Rightarrow> comment_type" where
  "comments (Boolean b c) = c"
| "comments (Integer i f c) = c"
| "comments (Floating x f c) = c"
| "comments (String s f c) = c"
| "comments (OffsetDatetime d f c) = c"
| "comments (LocalDatetime d f c) = c"
| "comments (LocalDate d c) = c"
| "comments (LocalTime t f c) = c"
| "comments (Array a f c) = c"
| "comments (Table t f c) = c"
| "comments (Empty c) = c"

fun is_table :: "value \<Rightarrow> bool" where
  "is_table (Table t f c) = True"
| "is_table _ = False"

fun is_array :: "value \<Rightarrow> bool" where
  "is_array (Array a f c) = True"
| "is_array _ = False"

text \<open>
  Modelled from the spec: the typed accessors of \<^verbatim>\<open>basic_value\<close> (value.hpp), which the
  serializer consumes as "kind discrimination, typed accessors, a format-hint accessor per
  kind" on a tagged variant whose "tag matches the kind of its payload and hint". An
  accessor answers for a value of its own kind; asked of a value of another kind it has no
  payload or hint to return and fails with a type error.
\<close>

fun as_table_fmt :: "value \<Rightarrow> error + table_format_info" where
  "as_table_fmt (Table t f c) = Inr f"
| "as_table_fmt _ = Inl BadCast"

fun as_array_fmt :: "value \<Rightarrow> error + array_format_info" where
  "as_array_fmt (Array a f c) = Inr f"
| "as_array_fmt _ = Inl BadCast"

fun as_array :: "value \<Rightarrow> error + value list" where
  "as_array (Array a f c) = Inr a"
| "as_array _ = Inl BadCast"

text \<open>
  Modelled from the spec: \<^verbatim>\<open>is_array_of_tables\<close> of \<^verbatim>\<open>basic_value\<close> (value.hpp). An
  array of tables is "a sequence of tables introduced by repeated \<^verbatim>\<open>[[name]]\<close> headers":
  an array with at least one element, all of whose elements are tables.
\<close>

fun is_array_of_tables :: "value \<Rightarrow> bool" where
  "is_array_of_tables (Array a f c) = (a \<noteq> [] \<and> list_all is_table a)"
| "is_array_of_tables _ = False"

subsection \<open>The serializer object and its helpers\<close>

text \<open>
  The members \<^verbatim>\<open>spec_\<close>, \<^verbatim>\<open>force_inline_\<close>, \<^verbatim>\<open>current_indent_\<close> and \<^verbatim>\<open>keys_\<close>; a name
  cannot end with an underscore here, so the fields carry the prefix \<^verbatim>\<open>m_\<close> instead.
\<close>

record serializer =
  m_spec :: spec
  m_force_inline :: bool
  m_current_indent :: int
  m_keys :: "string list"

text \<open>The constructor: \<^verbatim>\<open>spec_(sp), force_inline_(false), current_indent_(0)\<close>.\<close>

definition new_serializer :: "spec \<Rightarrow> serializer" where
  "new_serializer sp = \<lparr>m_spec = sp, m_force_inline = False, m_current_indent = 0, m_keys = []\<rparr>"

definition format_indent :: "serializer \<Rightarrow> indent_char \<Rightarrow> string" where
  "format_indent st indent_type =
     (let indent = nat (max 0 (m_current_indent st))
      in case indent_type of
           indent_space \<Rightarrow> replicate indent CHR '' ''
         | indent_tab \<Rightarrow> replicate indent (CHR 0x09)
         | indent_none \<Rightarrow> [])"

fun format_comments :: "serializer \<Rightarrow> comment_type \<Rightarrow> indent_char \<Rightarrow> string" where
  "format_comments st discard_comments indent_type = []"
| "format_comments st (preserve_comments cs) indent_type =
     concat (map (\<lambda>c. if c = [] then []
                       else format_indent st indent_type
                            @ (if hd c \<noteq> CHR ''#'' then ''#'' else []) @ c
                            @ (if last c \<noteq> newline then [newline] else [])) cs)"

definition format_key :: "library \<Rightarrow> spec \<Rightarrow> string \<Rightarrow> string" where
  "format_key L sp key =
     (if key = [] then [dquote, dquote]
      else if unquoted_key L sp key then key
      else [dquote]
           @ concat (map (\<lambda>c.
               if c = bslash then [bslash, bslash]
               else if c = dquote then [bslash, dquote]
               else if c = CHR 0x08 then [bslash, CHR ''b'']
               else if c = CHR 0x09 then [bslash, CHR ''t'']
               else if c = CHR 0x0C then [bslash, CHR ''f'']
               else if c = CHR 0x0A then [bslash, CHR ''n'']
               else if c = CHR 0x0D then [bslash, CHR ''r'']
               else escape_ctrl sp c) key)
           @ [dquote])"

definition format_keys :: "library \<Rightarrow> spec \<Rightarrow> string list \<Rightarrow> string option" where
  "format_keys L sp keys =
     (if keys = [] then None
      else Some (butlast (concat (map (\<lambda>ky. format_key L sp ky @ ''.'') keys))))"

text \<open>\<^verbatim>\<open>current_indent_ += n\<close>, \<^verbatim>\<open>keys_.push_back(k)\<close> and \<^verbatim>\<open>keys_.pop_back()\<close>.\<close>

definition indent_by :: "int \<Rightarrow> serializer \<Rightarrow> serializer" where
  "indent_by n st = st\<lparr>m_current_indent := m_current_indent st + n\<rparr>"

definition push_key :: "string \<Rightarrow> serializer \<Rightarrow> serializer" where
  "push_key k st = st\<lparr>m_keys := m_keys st @ [k]\<rparr>"

definition pop_key :: "serializer \<Rightarrow> serializer" where
  "pop_key st = st\<lparr>m_keys := butlast (m_keys st)\<rparr>"

text \<open>
  A range-for loop whose body appends to \<^verbatim>\<open>retval\<close> and may change the serializer or
  throw: the texts of the rounds are concatenated, the serializer is threaded through,
  and the first exception ends the loop.
\<close>

type_synonym outcome = "error + string \<times> serializer"

fun foreach :: "('a \<Rightarrow> serializer \<Rightarrow> outcome) \<Rightarrow> 'a list \<Rightarrow> serializer \<Rightarrow> outcome" where
  "foreach body [] st = Inr ([], st)"
| "foreach body (x # xs) st =
     (case body x st of
        Inl err \<Rightarrow> Inl err
      | Inr (s, st1) \<Rightarrow>
          (case foreach body xs st1 of
             Inl err \<Rightarrow> Inl err
           | Inr (s', st2) \<Rightarrow> Inr (s @ s', st2)))"

lemma foreach_cong [fundef_cong]:
  "xs = ys \<Longrightarrow> st = st' \<Longrightarrow> (\<And>x s. x \<in> set ys \<Longrightarrow> f x s = g x s) \<Longrightarrow>
   foreach f xs st = foreach g ys st'"
proof (induction ys arbitrary: xs st st')
  case Nil
  then show ?case by simp
next
  case (Cons y ys)
  have "foreach f ys s = foreach g ys s" for s
    by (rule Cons.IH) (simp_all add: Cons.prems(3))
  with Cons.prems show ?case by (simp split: sum.splits prod.splits)
qed

text \<open>\<^verbatim>\<open>retval.pop_back(); retval.pop_back();\<close> after a loop over a non-empty container.\<close>

definition drop_last2 :: "'a list \<Rightarrow> string \<Rightarrow> string" where
  "drop_last2 container retval = (if container \<noteq> [] then butlast (butlast retval) else retval)"

subsection \<open>Array renderer: resolving the default form\<close>

text \<open>
  The loop that estimates the length of a one-line rendering. It returns the form chosen,
  or the exception of a scalar encoder it calls.
\<close>

fun approx_loop :: "library \<Rightarrow> spec \<Rightarrow> value list \<Rightarrow> nat \<Rightarrow> error + array_format" where
  "approx_loop L sp [] approx_len = Inr array_oneline"
| "approx_loop L sp (e # es) approx_len =
     (if \<not> comments_empty (comments e) then Inr array_multiline
      else
        (case
           (case e of
              Array a f c \<Rightarrow> Inr None
            | Table t f c \<Rightarrow> Inr None
            | OffsetDatetime d f c \<Rightarrow> Inr None
            | LocalDatetime d f c \<Rightarrow> Inr None
            | Boolean b c \<Rightarrow> Inr (Some (approx_len + length (serialize_boolean b)))
            | Integer i f c \<Rightarrow>
                (case serialize_integer sp i f of
                   Inl err \<Rightarrow> Inl err
                 | Inr s \<Rightarrow> Inr (Some (approx_len + length s)))
            | Floating x f c \<Rightarrow> Inr (Some (approx_len + length (serialize_floating L sp x f)))
            | String s f c \<Rightarrow>
                (if str_fmt f = multiline_basic \<or> str_fmt f = multiline_literal then Inr None
                 else (case serialize_string sp s f of
                         Inl err \<Rightarrow> Inl err
                       | Inr r \<Rightarrow> Inr (Some (approx_len + (2 + length r)))))
            | LocalDate d c \<Rightarrow> Inr (Some (approx_len + 10))
            | LocalTime t f c \<Rightarrow> Inr (Some (approx_len + 15))
            | Empty c \<Rightarrow> Inr (Some approx_len))
         of
           Inl err \<Rightarrow> Inl err
         | Inr None \<Rightarrow> Inr array_multiline
         | Inr (Some n) \<Rightarrow>
             (if n > 60 then Inr array_multiline else approx_loop L sp es (n + 2))))"

definition resolve_default_format ::
  "library \<Rightarrow> serializer \<Rightarrow> value list \<Rightarrow> comment_type \<Rightarrow> error + array_format" where
  "resolve_default_format L st a com =
     (if m_keys st \<noteq> [] \<and> a \<noteq> [] \<and> comments_empty com \<and> list_all is_table a
      then Inr array_of_tables
      else approx_loop L (m_spec st) a 0)"

text \<open>
  The form \<^verbatim>\<open>f\<close> of the array renderer: \<open>resolved_form\<close> after the first statement,
  where a default hint is resolved, and \<open>array_form\<close> after the second, where
  array-of-tables gives way to multi-line if the serializer is forced inline.
\<close>

definition resolved_form ::
  "library \<Rightarrow> serializer \<Rightarrow> value list \<Rightarrow> array_format_info \<Rightarrow> comment_type
     \<Rightarrow> error + array_format" where
  "resolved_form L st a fmt com =
     (if a_fmt fmt = array_default_format then resolve_default_format L st a com
      else Inr (a_fmt fmt))"

definition array_form ::
  "library \<Rightarrow> serializer \<Rightarrow> value list \<Rightarrow> array_format_info \<Rightarrow> comment_type
     \<Rightarrow> error + array_format" where
  "array_form L st a fmt com =
     (case resolved_form L st a fmt com of
        Inl err \<Rightarrow> Inl err
      | Inr f \<Rightarrow> Inr (if m_force_inline st \<and> f = array_of_tables then array_multiline else f))"

subsection \<open>Table renderer: the check of the children of an implicit table\<close>

text \<open>
  The checks at the head of the loop over an implicit table, for one child \<^verbatim>\<open>v\<close>; the
  result is the exception thrown, if any. \<^verbatim>\<open>&&\<close> evaluates its right operand only if
  the left one holds.
\<close>

fun check_implicit_elements :: "value \<Rightarrow> value list \<Rightarrow> error option" where
  "check_implicit_elements v [] = None"
| "check_implicit_elements v (e # es) =
     (case as_table_fmt e of
        Inl err \<Rightarrow> Some err
      | Inr fe \<Rightarrow>
          (if t_fmt fe \<noteq> table_multiline
           then (case as_table_fmt v of
                   Inl err \<Rightarrow> Some err
                 | Inr fv \<Rightarrow>
                     (if t_fmt fv \<noteq> table_implicit then Some ImplicitTableChild
                      else check_implicit_elements v es))
           else check_implicit_elements v es))"

definition check_implicit_child :: "value \<Rightarrow> error option" where
  "check_implicit_child v =
     (if \<not> is_table v \<and> \<not> is_array_of_tables v then Some ImplicitTableChild
      else if is_table v
      then (case as_table_fmt v of
              Inl err \<Rightarrow> Some err
            | Inr f \<Rightarrow>
                (if t_fmt f \<noteq> table_multiline \<and> t_fmt f \<noteq> table_implicit
                 then Some ImplicitTableChild else None))
      else (case as_array v of
              Inl err \<Rightarrow> Some err
            | Inr a \<Rightarrow> check_implicit_elements v a))"

text \<open>The lambda \<^verbatim>\<open>format_later\<close> of \<^verbatim>\<open>format_ml_table\<close>.\<close>

definition format_later :: "value \<Rightarrow> bool" where
  "format_later v =
     (let is_ml_table =
            (case v of
               Table t f c \<Rightarrow> t_fmt f \<noteq> table_oneline \<and> t_fmt f \<noteq> table_multiline_oneline
                                \<and> t_fmt f \<noteq> table_dotted
             | _ \<Rightarrow> False);
          is_ml_array_table =
            (case v of
               Array a f c \<Rightarrow> is_array_of_tables v \<and> a_fmt f \<noteq> array_oneline
                                \<and> a_fmt f \<noteq> array_multiline
             | _ \<Rightarrow> False)
      in is_ml_table \<or> is_ml_array_table)"

text \<open>
  The two tests on a table entry that look at the form of a table: the test of
  \<^verbatim>\<open>format_ml_table\<close> for a dotted table, and the test of \<^verbatim>\<open>format_dotted_table\<close> for a
  table to descend into, which yields the entries and the hint of that table.
\<close>

definition is_dotted_table :: "value \<Rightarrow> bool" where
  "is_dotted_table val = (case val of Table t f c \<Rightarrow> t_fmt f = table_dotted | _ \<Rightarrow> False)"

definition dotted_subtable :: "value \<Rightarrow> ((string \<times> value) list \<times> table_format_info) option" where
  "dotted_subtable val =
     (case val of
        Table t f c \<Rightarrow>
          (if t_fmt f \<noteq> table_oneline \<and> t_fmt f \<noteq> table_multiline_oneline then Some (t, f)
           else None)
      | _ \<Rightarrow> None)"

subsection \<open>The dispatch driver and the array and table renderers\<close>

text \<open>
  The overloads of \<^verbatim>\<open>operator()\<close> are named after their first argument:
  \<open>serialize_value\<close> is the driver \<^verbatim>\<open>operator()(const value_type&)\<close>, \<open>serialize_array\<close>
  and \<open>serialize_table\<close> are the array and table renderers. They and the four table
  formatters call each other. The vector \<^verbatim>\<open>keys\<close> that \<^verbatim>\<open>format_dotted_table\<close> extends
  and restores around each entry is passed by value.
\<close>

function (sequential) serialize_value :: "library \<Rightarrow> serializer \<Rightarrow> value \<Rightarrow> outcome"
and serialize_array ::
  "library \<Rightarrow> serializer \<Rightarrow> value list \<Rightarrow> array_format_info \<Rightarrow> comment_type \<Rightarrow> outcome"
and serialize_table ::
  "library \<Rightarrow> serializer \<Rightarrow> (string \<times> value) list \<Rightarrow> table_format_info \<Rightarrow> comment_type
     \<Rightarrow> outcome"
and format_ml_table ::
  "library \<Rightarrow> serializer \<Rightarrow> (string \<times> value) list \<Rightarrow> table_format_info \<Rightarrow> outcome"
and format_inline_table ::
  "library \<Rightarrow> serializer \<Rightarrow> (string \<times> value) list \<Rightarrow> table_format_info \<Rightarrow> outcome"
and format_ml_inline_table ::
  "library \<Rightarrow> serializer \<Rightarrow> (string \<times> value) list \<Rightarrow> table_format_info \<Rightarrow> outcome"
and format_dotted_table ::
  "library \<Rightarrow> serializer \<Rightarrow> (string \<times> value) list \<Rightarrow> table_format_info \<Rightarrow> string list
     \<Rightarrow> outcome"
where
  "serialize_value L st (Boolean b c) = Inr (serialize_boolean b, st)"
| "serialize_value L st (Integer i f c) =
     (case serialize_integer (m_spec st) i f of
        Inl err \<Rightarrow> Inl err
      | Inr s \<Rightarrow> Inr (s, st))"
| "serialize_value L st (Floating x f c) = Inr (serialize_floating L (m_spec st) x f, st)"
| "serialize_value L st (String s f c) =
     (case serialize_string (m_spec st) s f of
        Inl err \<Rightarrow> Inl err
      | Inr r \<Rightarrow> Inr (r, st))"
| "serialize_value L st (OffsetDatetime d f c) = Inr (serialize_offset_datetime L d f, st)"
| "serialize_value L st (LocalDatetime d f c) = Inr (serialize_local_datetime L d f, st)"
| "serialize_value L st (LocalDate d c) = Inr (put_local_date L d, st)"
| "serialize_value L st (LocalTime t f c) =
     Inr (format_local_time t (lt_has_seconds f) (lt_subsecond_precision f), st)"
| "serialize_value L st (Array a f c) = serialize_array L st a f c"
| "serialize_value L st (Table t f c) =
     (let retval = (if m_keys st = [] then format_comments st c (t_indent_type f) else []);
          retval1 = (if retval \<noteq> [] then retval @ [newline] else retval)
      in case serialize_table L st t f c of
           Inl err \<Rightarrow> Inl err
         | Inr (s, st1) \<Rightarrow> Inr (retval1 @ s, st1))"
| "serialize_value L st (Empty c) =
     (if ext_null_value (m_spec st) then Inr (''null'', st) else Inl InvalidValue)"

| "serialize_array L st a fmt com =
     (case array_form L st a fmt com of
        Inl err \<Rightarrow> Inl err
      | Inr f \<Rightarrow>
          if f = array_of_tables
          then
            (if m_keys st = [] then Inl MissingKey
             else foreach (\<lambda>e st.
                    case e of
                      Table t tf tc \<Rightarrow>
                        (let st1 = indent_by (t_name_indent tf) st;
                             head = format_comments st1 tc (t_indent_type tf)
                                    @ format_indent st1 (t_indent_type tf)
                          in case format_keys L (m_spec st) (m_keys st) of
                               None \<Rightarrow> Inl BadOptionalAccess
                             | Some ks \<Rightarrow>
                                 (case format_ml_table L st t tf of
                                    Inl err \<Rightarrow> Inl err
                                  | Inr (s, st2) \<Rightarrow>
                                      Inr (head @ ''[['' @ ks @ '']]'' @ [newline] @ s, st2)))
                    | _ \<Rightarrow> Inl AssertFailed) a st)
          else if f = array_oneline
          then
            (case foreach (\<lambda>e st.
                    case serialize_value L (st\<lparr>m_force_inline := True\<rparr>) e of
                      Inl err \<Rightarrow> Inl err
                    | Inr (s, st1) \<Rightarrow> Inr (s @ '', '', st1)) a st of
               Inl err \<Rightarrow> Inl err
             | Inr (body, st1) \<Rightarrow>
                 Inr (''['' @ drop_last2 a body @ '']'', st1\<lparr>m_force_inline := False\<rparr>))
          else
            (case foreach (\<lambda>e st.
                    let st1 = indent_by (a_body_indent fmt) st;
                        head = format_comments st1 (comments e) (a_indent_type fmt)
                               @ format_indent st1 (a_indent_type fmt)
                    in case serialize_value L (st\<lparr>m_force_inline := True\<rparr>) e of
                         Inl err \<Rightarrow> Inl err
                       | Inr (s, st2) \<Rightarrow> Inr (head @ s @ '','' @ [newline], st2)) a st of
               Inl err \<Rightarrow> Inl err
             | Inr (body, st1) \<Rightarrow>
                 (let st2 = st1\<lparr>m_force_inline := False\<rparr>
                  in Inr (''['' @ [newline] @ body
                          @ format_indent (indent_by (a_closing_indent fmt) st2) (a_indent_type fmt)
                          @ '']'', st2))))"

| "serialize_table L st t fmt com =
     (if m_force_inline st
      then (if t_fmt fmt = table_multiline_oneline then format_ml_inline_table L st t fmt
            else format_inline_table L st t fmt)
      else
        (case t_fmt fmt of
           table_multiline \<Rightarrow>
             (let retval =
                    (case format_keys L (m_spec st) (m_keys st) of
                       Some k \<Rightarrow>
                         (let st1 = indent_by (t_name_indent fmt) st
                          in format_comments st1 com (t_indent_type fmt)
                             @ format_indent st1 (t_indent_type fmt)
                             @ ''['' @ k @ '']'' @ [newline])
                     | None \<Rightarrow> [])
              in case format_ml_table L st t fmt of
                   Inl err \<Rightarrow> Inl err
                 | Inr (s, st1) \<Rightarrow> Inr (retval @ s, st1))
         | table_oneline \<Rightarrow> format_inline_table L st t fmt
         | table_multiline_oneline \<Rightarrow> format_ml_inline_table L st t fmt
         | table_dotted \<Rightarrow>
             (if m_keys st = [] then Inl MissingKey
              else format_dotted_table L st t fmt [last (m_keys st)])
         | table_implicit \<Rightarrow>
             foreach (\<lambda>(k, v) st.
               case check_implicit_child v of
                 Some err \<Rightarrow> Inl err
               | None \<Rightarrow>
                   (case serialize_value L (push_key k st) v of
                      Inl err \<Rightarrow> Inl err
                    | Inr (s, st1) \<Rightarrow> Inr (s, pop_key st1))) t st))"

| "format_ml_table L st t fmt =
     (case foreach (\<lambda>(key, val) st.
             if format_later val then Inr ([], st)
             else
               (let st1 = push_key key st;
                    head = format_comments st1 (comments val) (t_indent_type fmt)
                           @ format_indent st1 (t_indent_type fmt)
                in case serialize_value L st1 val of
                     Inl err \<Rightarrow> Inl err
                   | Inr (s, st2) \<Rightarrow>
                       Inr (if is_dotted_table val then head @ s
                            else head @ format_key L (m_spec st) key @ '' = '' @ s @ [newline],
                            pop_key st2)))
             t (indent_by (t_body_indent fmt) st) of
        Inl err \<Rightarrow> Inl err
      | Inr (retval, st1) \<Rightarrow>
          (let st2 = indent_by (- t_body_indent fmt) st1;
               retval1 = (if retval \<noteq> [] then retval @ [newline] else retval)
           in case foreach (\<lambda>(key, val) st.
                     if \<not> format_later val then Inr ([], st)
                     else
                       (case serialize_value L (push_key key st) val of
                          Inl err \<Rightarrow> Inl err
                        | Inr (s, st3) \<Rightarrow> Inr (s, pop_key st3)))
                     t st2 of
                Inl err \<Rightarrow> Inl err
              | Inr (s, st3) \<Rightarrow> Inr (retval1 @ s, st3)))"

| "format_inline_table L st t fmt =
     (case foreach (\<lambda>(k, v) st.
             case serialize_value L (st\<lparr>m_force_inline := True\<rparr>) v of
               Inl err \<Rightarrow> Inl err
             | Inr (s, st1) \<Rightarrow> Inr (format_key L (m_spec st) k @ '' = '' @ s @ '', '', st1))
             t st of
        Inl err \<Rightarrow> Inl err
      | Inr (body, st1) \<Rightarrow>
          Inr (''{'' @ drop_last2 t body @ ''}'', st1\<lparr>m_force_inline := False\<rparr>))"

| "format_ml_inline_table L st t fmt =
     (case foreach (\<lambda>(k, v) st.
             let st1 = st\<lparr>m_force_inline := True\<rparr>;
                 head = format_comments st1 (comments v) (t_indent_type fmt)
                        @ format_indent st1 (t_indent_type fmt)
             in case serialize_value L st1 v of
                  Inl err \<Rightarrow> Inl err
                | Inr (s, st2) \<Rightarrow> Inr (head @ k @ '' = '' @ s @ '','' @ [newline], st2))
             t (indent_by (t_body_indent fmt) st) of
        Inl err \<Rightarrow> Inl err
      | Inr (body, st1) \<Rightarrow>
          (let st2 = (indent_by (- t_body_indent fmt) st1)\<lparr>m_force_inline := False\<rparr>
           in Inr (''{'' @ [newline] @ drop_last2 t body
                   @ format_indent (indent_by (t_closing_indent fmt) st2) (t_indent_type fmt)
                   @ ''}'', st2)))"

| "format_dotted_table L st t fmt keys =
     foreach (\<lambda>(key, val) st.
       case dotted_subtable val of
         Some (vt, vf) \<Rightarrow> format_dotted_table L st vt vf (keys @ [key])
       | None \<Rightarrow>
           (let head = format_comments st (comments val) (t_indent_type fmt)
                       @ format_indent st (t_indent_type fmt)
            in case format_keys L (m_spec st) (keys @ [key]) of
                 None \<Rightarrow> Inl BadOptionalAccess
               | Some ks \<Rightarrow>
                   (case serialize_value L (st\<lparr>m_force_inline := True\<rparr>) val of
                      Inl err \<Rightarrow> Inl err
                    | Inr (s, st1) \<Rightarrow>
                        Inr (head @ ks @ '' = '' @ s @ [newline],
                             st1\<lparr>m_force_inline := False\<rparr>)))) t st"
  by pat_completeness auto

lemma size_list_member: "x \<in> set xs \<Longrightarrow> f x < size_list f xs"
  by (induction xs) auto

lemma size_entry_member:
  "(k, v) \<in> set t \<Longrightarrow> size v < size_list (size_prod (\<lambda>x. 0) size) t"
  using size_list_member[of "(k, v)" t "size_prod (\<lambda>x. 0) size"] by simp

lemma size_element_member: "x \<in> set a \<Longrightarrow> 2 * size x < Suc (2 * size_list size a)"
  using size_list_member[of x a size] by simp

lemma size_table_member:
  "Table t f c \<in> set a \<Longrightarrow>
   2 * size_list (size_prod (\<lambda>x. 0) size) t < Suc (2 * size_list size a)"
  using size_list_member[of "Table t f c" a size] by simp

lemma size_dotted_subtable:
  "dotted_subtable v = Some (vt, vf) \<Longrightarrow> size_list (size_prod (\<lambda>x. 0) size) vt < size v"
  by (cases v) (auto simp: dotted_subtable_def split: if_splits)

lemma size_dotted_entry:
  "(k, v) \<in> set t \<Longrightarrow> dotted_subtable v = Some (vt, vf) \<Longrightarrow>
   size_list (size_prod (\<lambda>x. 0) size) vt < size_list (size_prod (\<lambda>x. 0) size) t"
  using size_entry_member[of k v t] size_dotted_subtable[of v vt vf] by simp

termination serialize_value
  apply (relation "measure (\<lambda>x. case x of
      Inl (Inl (L, st, v)) \<Rightarrow> 2 * size v
    | Inl (Inr (Inl (L, st, a, f, c))) \<Rightarrow> 2 * size_list size a + 1
    | Inl (Inr (Inr (L, st, t, f, c))) \<Rightarrow> 2 * size_list (size_prod (\<lambda>x. 0) size) t + 1
    | Inr (Inl (Inl (L, st, t, f))) \<Rightarrow> 2 * size_list (size_prod (\<lambda>x. 0) size) t
    | Inr (Inl (Inr (L, st, t, f))) \<Rightarrow> 2 * size_list (size_prod (\<lambda>x. 0) size) t
    | Inr (Inr (Inl (L, st, t, f))) \<Rightarrow> 2 * size_list (size_prod (\<lambda>x. 0) size) t
    | Inr (Inr (Inr (L, st, t, f, ks))) \<Rightarrow> 2 * size_list (size_prod (\<lambda>x. 0) size) t)")
                      apply (simp_all add: size_element_member size_table_member)
           apply (auto dest: size_entry_member size_dotted_entry)
  done

declare serialize_array.simps [simp del]
declare serialize_table.simps [simp del]
declare format_ml_table.simps [simp del]
declare format_inline_table.simps [simp del]
declare format_ml_inline_table.simps [simp del]
declare format_dotted_table.simps [simp del]

text \<open>
  The entry points \<^verbatim>\<open>toml::format\<close>: a new serializer is applied to the value, after the
  keys given have been pushed.
\<close>

definition format :: "library \<Rightarrow> value \<Rightarrow> spec \<Rightarrow> error + string" where
  "format L v s = map_sum id fst (serialize_value L (new_serializer s) v)"

definition format_with_key :: "library \<Rightarrow> string \<Rightarrow> value \<Rightarrow> spec \<Rightarrow> error + string" where
  "format_with_key L k v s = map_sum id fst (serialize_value L (push_key k (new_serializer s)) v)"

definition format_with_keys ::
  "library \<Rightarrow> string list \<Rightarrow> value \<Rightarrow> spec \<Rightarrow> error + string" where
  "format_with_keys L ks v s =
     map_sum id fst (serialize_value L (fold push_key ks (new_serializer s)) v)"

text \<open>
  Modelled from the spec: \<^verbatim>\<open>spec::default_version()\<close> (spec.hpp), the default of the
  specification parameter, which "corresponds to TOML 1.0 with all extensions disabled".
\<close>

definition default_version :: spec where
  "default_version =
     \<lparr>version = (1, 0, 0), ext_null_value = False, ext_num_suffix = False,
      ext_hex_float = False, v1_1_0_add_escape_sequence_e = False,
      v1_1_0_add_escape_sequence_x = False\<rparr>"

text \<open>
  A library for evaluating the encoders on concrete inputs: the stream prints every finite
  floating value as \<^verbatim>\<open>1\<close>, every date as \<^verbatim>\<open>1979-05-27\<close>, every offset as \<^verbatim>\<open>Z\<close>, and
  a key is unquoted if it is made of lower-case letters only.
\<close>

definition sample_library :: library where
  "sample_library =
     \<lparr>put_floating = (\<lambda>ff p x. ''1''),
      put_local_date = (\<lambda>d. ''1979-05-27''),
      put_time_offset = (\<lambda>off. ''Z''),
      unquoted_key = (\<lambda>sp k. list_all (\<lambda>c. c \<in> set ''abcdefghijklmnopqrstuvwxyz'') k)\<rparr>"

text \<open>Hints for evaluating the renderers on concrete inputs.\<close>

definition sample_table_hint :: "table_format \<Rightarrow> table_format_info" where
  "sample_table_hint f =
     \<lparr>t_fmt = f, t_indent_type = indent_space, t_body_indent = 0, t_name_indent = 0,
      t_closing_indent = 0\<rparr>"

definition sample_array_hint :: "array_format \<Rightarrow> array_format_info" where
  "sample_array_hint f =
     \<lparr>a_fmt = f, a_indent_type = indent_space, a_body_indent = 4, a_closing_indent = 0\<rparr>"

definition sample_integer_hint :: integer_format_info where
  "sample_integer_hint = \<lparr>int_fmt = dec, uppercase = False, width = 0, spacer = 0, int_suffix = []\<rparr>"

section \<open>Properties of the scalar encoders\<close>

subsection \<open>Integer encoder: radix and sign\<close>

lemma to_digits_bound: "2 \<le> b \<Longrightarrow> d \<in> set (to_digits b n) \<Longrightarrow> d < b"
proof (induction b n rule: to_digits.induct)
  case (1 b n)
  show ?case
  proof (cases "n < b")
    case True
    with "1.prems" show ?thesis by (simp add: to_digits.simps[of b n])
  next
    case False
    with "1.prems"(1) have eq: "to_digits b n = to_digits b (n div b) @ [n mod b]"
      by (subst to_digits.simps) simp
    from "1.prems"(2) have "d \<in> set (to_digits b (n div b)) \<or> d = n mod b"
      unfolding eq by auto
    with "1.IH" False "1.prems"(1) show ?thesis by auto
  qed
qed

lemma to_digits_nonempty: "to_digits b n \<noteq> []"
  by (subst to_digits.simps) simp

lemma digit_char_plain:
  "d < 16 \<Longrightarrow> digit_char up d \<notin> {CHR ''-'', CHR ''+'', CHR ''_''}"
  by (auto simp: digit_char_def char_of_eq_iff take_bit_eq_mod)

lemma put_integer_nonneg_chars:
  assumes "0 \<le> i" "2 \<le> b" "b \<le> 16"
  shows "set (put_integer b up w CHR ''0'' i) \<inter> {CHR ''-'', CHR ''+''} = {}"
proof -
  have "c \<notin> {CHR ''-'', CHR ''+''}" if "c \<in> digit_char up ` set (to_digits b (nat \<bar>i\<bar>))" for c
  proof -
    from that obtain d where d: "d \<in> set (to_digits b (nat \<bar>i\<bar>))" "c = digit_char up d" by auto
    from to_digits_bound[OF assms(2) d(1)] assms(3) have "d < 16" by simp
    from digit_char_plain[OF this, of up] d(2) show ?thesis by simp
  qed
  with assms(1) show ?thesis by (auto simp: put_integer_def Let_def)
qed

lemma spacer_loop_set:
  "set (spacer_loop sp cs n acc) \<subseteq> set acc \<union> set cs \<union> {CHR ''_''}"
  by (induction cs arbitrary: n acc) (fastforce split: if_splits)+

lemma insert_spacer_set: "set (insert_spacer fmt s) \<subseteq> set s \<union> {CHR ''_''}"
proof (cases "spacer fmt = 0")
  case True
  then show ?thesis by (auto simp: insert_spacer_def)
next
  case False
  let ?hs = "s \<noteq> [] \<and> (hd s = CHR ''+'' \<or> hd s = CHR ''-'')"
  let ?s1 = "if ?hs then tl s else s"
  let ?sp = "spacer_loop (spacer fmt) (rev ?s1) 0 []"
  have t: "set (tl s) \<subseteq> set s" by (cases s) auto
  have a: "set ?sp \<subseteq> set s \<union> {CHR ''_''}"
    using spacer_loop_set[of "spacer fmt" "rev ?s1" 0 "[]"] t by (cases ?hs) auto
  have b: "set (butlast ?sp) \<subseteq> set s \<union> {CHR ''_''}"
    using a by (meson in_set_butlastD subset_iff)
  have c: "?hs \<Longrightarrow> hd s \<in> set s" by simp
  show ?thesis using False a b c unfolding insert_spacer_def Let_def
    by (auto simp del: hd_in_set)
qed

lemma bin_while_set:
  "set (fst (bin_while sp x tmp bits)) \<subseteq> set tmp \<union> {CHR ''0'', CHR ''1'', CHR ''_''}"
proof (induction sp x tmp bits rule: bin_while.induct)
  case (1 sp x tmp bits)
  show ?case
  proof (cases "x = 0")
    case True
    then show ?thesis by (subst bin_while.simps) auto
  next
    case False
    with "1.IH" show ?thesis
      by (subst bin_while.simps) (auto split: if_splits)
  qed
qed

lemma bin_for_set:
  "set (bin_for sp w tmp bits) \<subseteq> set tmp \<union> {CHR ''0'', CHR ''_''}"
proof (induction sp w tmp bits rule: bin_for.induct)
  case (1 sp w tmp bits)
  show ?case
  proof (cases "bits < w")
    case True
    with "1.IH" show ?thesis
      by (subst bin_for.simps) (auto split: if_splits)
  next
    case False
    then show ?thesis by (subst bin_for.simps) auto
  qed
qed

lemma integer_negative_iff:
  "serialize_integer sp i fmt = Inl NegativeNonDecimal \<longleftrightarrow> i < 0 \<and> int_fmt fmt \<noteq> dec"
  by (auto simp: serialize_integer_def Let_def split: integer_format.splits prod.splits)

lemma integer_hex_prefix:
  assumes "0 \<le> i" "int_fmt fmt = hex"
  shows "\<exists>body. serialize_integer sp i fmt = Inr (''0x'' @ body)
           \<and> CHR ''-'' \<notin> set body \<and> CHR ''+'' \<notin> set body"
proof -
  let ?p = "put_integer 16 (uppercase fmt) (to_int (width fmt)) CHR ''0'' i"
  have "set (insert_spacer fmt ?p) \<subseteq> set ?p \<union> {CHR ''_''}" by (rule insert_spacer_set)
  moreover have "set ?p \<inter> {CHR ''-'', CHR ''+''} = {}"
    by (rule put_integer_nonneg_chars) (use assms in simp_all)
  ultimately have "CHR ''-'' \<notin> set (insert_spacer fmt ?p) \<and> CHR ''+'' \<notin> set (insert_spacer fmt ?p)"
    by auto
  with assms show ?thesis by (simp add: serialize_integer_def)
qed

lemma integer_oct_prefix:
  assumes "0 \<le> i" "int_fmt fmt = oct"
  shows "\<exists>body. serialize_integer sp i fmt = Inr (''0o'' @ body)
           \<and> CHR ''-'' \<notin> set body \<and> CHR ''+'' \<notin> set body"
proof -
  let ?p = "put_integer 8 False (to_int (width fmt)) CHR ''0'' i"
  have "set (insert_spacer fmt ?p) \<subseteq> set ?p \<union> {CHR ''_''}" by (rule insert_spacer_set)
  moreover have "set ?p \<inter> {CHR ''-'', CHR ''+''} = {}"
    by (rule put_integer_nonneg_chars) (use assms in simp_all)
  ultimately have "CHR ''-'' \<notin> set (insert_spacer fmt ?p) \<and> CHR ''+'' \<notin> set (insert_spacer fmt ?p)"
    by auto
  with assms show ?thesis by (simp add: serialize_integer_def)
qed

lemma integer_bin_prefix:
  assumes "0 \<le> i" "int_fmt fmt = bin"
  shows "\<exists>body. serialize_integer sp i fmt = Inr (''0b'' @ body)
           \<and> CHR ''-'' \<notin> set body \<and> CHR ''+'' \<notin> set body"
proof -
  obtain tmp bits where tb: "bin_while (spacer fmt) (nat i) [] 0 = (tmp, bits)"
    by (cases "bin_while (spacer fmt) (nat i) [] 0")
  have "set tmp \<subseteq> {CHR ''0'', CHR ''1'', CHR ''_''}"
    using bin_while_set[of "spacer fmt" "nat i" "[]" 0] tb by simp
  with bin_for_set[of "spacer fmt" "width fmt" tmp bits]
  have "set (bin_for (spacer fmt) (width fmt) tmp bits) \<subseteq> {CHR ''0'', CHR ''1'', CHR ''_''}"
    by auto
  then have "CHR ''-'' \<notin> set (rev (bin_for (spacer fmt) (width fmt) tmp bits))
      \<and> CHR ''+'' \<notin> set (rev (bin_for (spacer fmt) (width fmt) tmp bits))"
    by auto
  with assms tb show ?thesis by (simp add: serialize_integer_def)
qed

text \<open>
  C8 (as amended). The integer encoder raises NegativeNonDecimal, and so produces no
  output, exactly when the value is negative and the radix hint is not decimal: the sign is
  tested before the radix is dispatched, so this holds for hex, oct and bin and also for a
  radix outside the enumeration. For a value that is not negative, the output of the hex,
  oct and bin radix begins with 0x, 0o and 0b and contains no sign character.
\<close>

theorem integer_non_decimal:
  "(serialize_integer sp i fmt = Inl NegativeNonDecimal \<longleftrightarrow> i < 0 \<and> int_fmt fmt \<noteq> dec) \<and>
   (0 \<le> i \<longrightarrow>
      (int_fmt fmt = hex \<longrightarrow>
         (\<exists>body. serialize_integer sp i fmt = Inr (''0x'' @ body)
            \<and> CHR ''-'' \<notin> set body \<and> CHR ''+'' \<notin> set body)) \<and>
      (int_fmt fmt = oct \<longrightarrow>
         (\<exists>body. serialize_integer sp i fmt = Inr (''0o'' @ body)
            \<and> CHR ''-'' \<notin> set body \<and> CHR ''+'' \<notin> set body)) \<and>
      (int_fmt fmt = bin \<longrightarrow>
         (\<exists>body. serialize_integer sp i fmt = Inr (''0b'' @ body)
            \<and> CHR ''-'' \<notin> set body \<and> CHR ''+'' \<notin> set body)))"
  using integer_negative_iff integer_hex_prefix integer_oct_prefix integer_bin_prefix
  by blast

theorem integer_non_decimal_witness:
  "(0::int) \<le> 255 \<and>
   (\<exists>body. serialize_integer default_version 255
        \<lparr>int_fmt = hex, uppercase = True, width = 4, spacer = 2, int_suffix = []\<rparr>
      = Inr (''0x'' @ body) \<and> CHR ''-'' \<notin> set body \<and> CHR ''+'' \<notin> set body) \<and>
   serialize_integer default_version (- 1)
        \<lparr>int_fmt = hex, uppercase = True, width = 4, spacer = 2, int_suffix = []\<rparr>
      = Inl NegativeNonDecimal"
  using integer_non_decimal[of default_version 255
          "\<lparr>int_fmt = hex, uppercase = True, width = 4, spacer = 2, int_suffix = []\<rparr>"]
        integer_non_decimal[of default_version "- 1"
          "\<lparr>int_fmt = hex, uppercase = True, width = 4, spacer = 2, int_suffix = []\<rparr>"]
  by simp

text \<open>
  C8 as stated fails: a negative value with a radix hint outside the enumeration raises
  NegativeNonDecimal although the radix is none of hex, oct and bin.
\<close>

theorem integer_non_decimal_counterexample:
  "serialize_integer default_version (- 1)
     \<lparr>int_fmt = integer_format_other 4, uppercase = False, width = 0, spacer = 0,
      int_suffix = []\<rparr> = Inl NegativeNonDecimal
   \<and> integer_format_other 4 \<noteq> hex \<and> integer_format_other 4 \<noteq> oct
   \<and> integer_format_other 4 \<noteq> bin"
  by (simp add: serialize_integer_def)

subsection \<open>Floating encoder: decimal point and suffix\<close>

text \<open>
  C7 (as amended). For every finite floating value rendered with the default form, if the
  string of the underlying formatter contains neither a decimal point nor an exponent
  indicator then .0 is appended, so that the output contains a decimal point or an exponent
  marker. NaN and infinity are emitted before the form is looked at, as nan and inf with
  the sign and the suffix only: nothing is appended to them.
\<close>

theorem default_float_point_or_exponent:
  "float_fmt fmt = defaultfloat \<longrightarrow>
     (let s = put_floating L ff_default (set_prec fmt) (Finite neg m e);
          out = serialize_floating L sp (Finite neg m e) fmt
      in (CHR ''.'' \<notin> set s \<and> CHR ''e'' \<notin> set s \<and> CHR ''E'' \<notin> set s
            \<longrightarrow> out = with_float_suffix sp fmt (s @ ''.0''))
         \<and> (CHR ''.'' \<in> set out \<or> CHR ''e'' \<in> set out \<or> CHR ''E'' \<in> set out)
         \<and> serialize_floating L sp (NaN neg) fmt
             = with_float_suffix sp fmt ((if neg then ''-'' else []) @ ''nan'')
         \<and> serialize_floating L sp (Infinity neg) fmt
             = with_float_suffix sp fmt ((if neg then ''-'' else []) @ ''inf''))"
  by (auto simp: Let_def with_float_suffix_def)

theorem default_float_point_or_exponent_witness:
  "float_fmt \<lparr>float_fmt = defaultfloat, prec = 0, float_suffix = []\<rparr> = defaultfloat \<and>
   serialize_floating sample_library default_version (Finite False 1 0)
     \<lparr>float_fmt = defaultfloat, prec = 0, float_suffix = []\<rparr> = ''1.0''"
  using default_float_point_or_exponent[where
      fmt = "\<lparr>float_fmt = defaultfloat, prec = 0, float_suffix = []\<rparr>"
      and L = sample_library and neg = False and m = 1 and e = 0 and sp = default_version]
  by (simp add: sample_library_def default_version_def with_float_suffix_def set_prec_def)

text \<open>
  C7 as stated fails for NaN: in the default form the output is nan, which contains neither
  a decimal point nor an exponent marker.
\<close>

theorem default_float_point_or_exponent_counterexample:
  "serialize_floating sample_library default_version (NaN False)
     \<lparr>float_fmt = defaultfloat, prec = 0, float_suffix = []\<rparr> = ''nan''
   \<and> CHR ''.'' \<notin> set ''nan'' \<and> CHR ''e'' \<notin> set ''nan'' \<and> CHR ''E'' \<notin> set ''nan''"
  by (simp add: with_float_suffix_def default_version_def)

text \<open>
  C10. With the numeric-suffix extension enabled and a non-empty suffix in the hint, the
  output for NaN and for infinity is nan or inf, preceded by - if the sign bit is set and
  followed by _ and the suffix; a finite value in the default, fixed or scientific form
  ends with _ and the suffix in the same way.
\<close>

theorem nan_inf_suffix:
  "ext_num_suffix sp \<and> float_suffix fmt \<noteq> [] \<longrightarrow>
     serialize_floating L sp (NaN neg) fmt
       = (if neg then ''-'' else []) @ ''nan'' @ ''_'' @ float_suffix fmt
     \<and> serialize_floating L sp (Infinity neg) fmt
       = (if neg then ''-'' else []) @ ''inf'' @ ''_'' @ float_suffix fmt
     \<and> (float_fmt fmt \<in> {defaultfloat, fixed, scientific} \<longrightarrow>
          (\<exists>s. serialize_floating L sp (Finite neg m e) fmt = s @ ''_'' @ float_suffix fmt))"
  by (auto simp: Let_def with_float_suffix_def)

theorem nan_inf_suffix_witness:
  "ext_num_suffix (default_version\<lparr>ext_num_suffix := True\<rparr>) \<and>
   float_suffix \<lparr>float_fmt = defaultfloat, prec = 0, float_suffix = ''ms''\<rparr> \<noteq> [] \<and>
   serialize_floating sample_library (default_version\<lparr>ext_num_suffix := True\<rparr>) (NaN True)
     \<lparr>float_fmt = defaultfloat, prec = 0, float_suffix = ''ms''\<rparr> = ''-nan_ms'' \<and>
   serialize_floating sample_library (default_version\<lparr>ext_num_suffix := True\<rparr>) (Infinity False)
     \<lparr>float_fmt = defaultfloat, prec = 0, float_suffix = ''ms''\<rparr> = ''inf_ms''"
  using nan_inf_suffix[where sp = "default_version\<lparr>ext_num_suffix := True\<rparr>"
      and fmt = "\<lparr>float_fmt = defaultfloat, prec = 0, float_suffix = ''ms''\<rparr>"
      and L = sample_library and neg = True and m = 0 and e = 0]
    nan_inf_suffix[where sp = "default_version\<lparr>ext_num_suffix := True\<rparr>"
      and fmt = "\<lparr>float_fmt = defaultfloat, prec = 0, float_suffix = ''ms''\<rparr>"
      and L = sample_library and neg = False and m = 0 and e = 0]
  by simp

subsection \<open>String encoder: multi-line basic strings\<close>

lemma break_quotes_no_three_quotes: "find_str three_quotes (break_quotes s) = None"
proof (induction s rule: break_quotes.induct)
  case (1 retval)
  show ?case
  proof (cases "find_str three_quotes retval")
    case None
    then show ?thesis by (subst break_quotes.simps) simp
  next
    case (Some p)
    with "1.IH" show ?thesis by (subst break_quotes.simps) simp
  qed
qed

text \<open>
  C5. The body of a multi-line basic string, that is the result of
  \<open>escape_ml_basic_string\<close>, contains no three consecutive quotes: the search that the loop
  ends on finds nothing, and no position of the body starts three quotes. The loop is the
  total function \<open>break_quotes\<close>, whose termination is proved where it is defined.
\<close>

theorem escape_ml_basic_string_no_three_quotes:
  "find_str three_quotes (escape_ml_basic_string sp s) = None \<and>
   \<not> sublist [dquote, dquote, dquote] (escape_ml_basic_string sp s)"
  using break_quotes_no_three_quotes[of "concat (map (escape_ml_basic_char sp) s)"]
  by (simp add: escape_ml_basic_string_def find_str_None_iff three_quotes_def)

theorem escape_ml_basic_string_no_three_quotes_witness:
  "escape_ml_basic_string default_version (replicate 5 dquote)
     = [dquote, dquote, bslash, dquote, dquote, bslash, dquote] \<and>
   \<not> sublist [dquote, dquote, dquote] [dquote, dquote, bslash, dquote, dquote, bslash, dquote]"
proof -
  have e: "escape_ml_basic_string default_version (replicate 5 dquote)
     = [dquote, dquote, bslash, dquote, dquote, bslash, dquote]"
    by code_simp
  from escape_ml_basic_string_no_three_quotes[of default_version "replicate 5 dquote"]
  show ?thesis unfolding e by simp
qed

subsection \<open>Integer encoder: digit groups\<close>

text \<open>
  The text that \<open>spacer_loop\<close> appends, as a function of the number \<open>ph\<close> of characters
  written since the last separator (or since the start): a separator is due when \<open>ph\<close>
  has reached the group size.
\<close>

fun grouped :: "nat \<Rightarrow> nat \<Rightarrow> string \<Rightarrow> string" where
  "grouped k ph [] = []"
| "grouped k ph (c # cs) =
     (if ph = k then CHR ''_'' # c # grouped k 1 cs else c # grouped k (Suc ph) cs)"

definition phase :: "nat \<Rightarrow> nat \<Rightarrow> nat" where
  "phase k n = (if n = 0 then 0 else (n - 1) mod k + 1)"

lemma phase_due:
  assumes "0 < k"
  shows "(n \<noteq> 0 \<and> n mod k = 0) \<longleftrightarrow> phase k n = k"
proof (cases n)
  case 0
  then show ?thesis using assms by (simp add: phase_def)
next
  case (Suc m)
  then show ?thesis using assms by (auto simp: phase_def mod_Suc split: if_splits)
qed

lemma phase_Suc:
  assumes "0 < k"
  shows "phase k (Suc n) = (if phase k n = k then 1 else Suc (phase k n))"
proof (cases n)
  case 0
  then show ?thesis using assms by (simp add: phase_def)
next
  case (Suc m)
  then show ?thesis using assms by (auto simp: phase_def mod_Suc)
qed

lemma spacer_loop_grouped:
  "0 < k \<Longrightarrow> spacer_loop k cs n acc = acc @ grouped k (phase k n) cs"
proof (induction cs arbitrary: n acc)
  case Nil
  then show ?case by simp
next
  case (Cons c cs)
  from Cons.prems have d: "(n \<noteq> 0 \<and> n mod k = 0) \<longleftrightarrow> phase k n = k" by (rule phase_due)
  show ?case
    using Cons.IH[OF Cons.prems] phase_Suc[OF Cons.prems, of n] d by auto
qed

lemma grouped_filter:
  "CHR ''_'' \<notin> set cs \<Longrightarrow> filter (\<lambda>c. c \<noteq> CHR ''_'') (grouped k ph cs) = cs"
  by (induction cs arbitrary: ph) auto

lemma grouped_nonempty: "cs \<noteq> [] \<Longrightarrow> grouped k ph cs \<noteq> []"
  by (cases cs) auto

lemma grouped_last: "cs \<noteq> [] \<Longrightarrow> last (grouped k ph cs) = last cs"
proof (induction cs arbitrary: ph)
  case Nil
  then show ?case by simp
next
  case (Cons c cs)
  show ?case
  proof (cases "cs = []")
    case True
    then show ?thesis by simp
  next
    case False
    with Cons.IH grouped_nonempty[OF False] show ?thesis by simp
  qed
qed

lemma grouped_positions:
  "0 < k \<Longrightarrow> ph \<le> k \<Longrightarrow> CHR ''_'' \<notin> set cs \<Longrightarrow> j < length (grouped k ph cs) \<Longrightarrow>
   (grouped k ph cs ! j = CHR ''_'') \<longleftrightarrow> ((j + ph) mod (k + 1) = k)"
proof (induction cs arbitrary: ph j)
  case Nil
  then show ?case by simp
next
  case (Cons c cs)
  from Cons.prems(3) have c: "c \<noteq> CHR ''_''" and cs: "CHR ''_'' \<notin> set cs" by auto
  show ?case
  proof (cases "ph = k")
    case True
    note ph = True
    show ?thesis
    proof (cases j)
      case 0
      then show ?thesis using ph by simp
    next
      case (Suc j1)
      show ?thesis
      proof (cases j1)
        case 0
        with Suc ph c Cons.prems(1) show ?thesis by simp
      next
        case (Suc j2)
        have l: "j2 < length (grouped k 1 cs)" using Cons.prems(4) ph \<open>j = Suc j1\<close> Suc by simp
        have "(grouped k 1 cs ! j2 = CHR ''_'') \<longleftrightarrow> ((j2 + 1) mod (k + 1) = k)"
          by (rule Cons.IH) (use Cons.prems(1) cs l in simp_all)
        moreover have "(j + ph) mod (k + 1) = (j2 + 1) mod (k + 1)"
        proof -
          have "j + ph = (j2 + 1) + (k + 1)" using \<open>j = Suc j1\<close> Suc ph by simp
          then show ?thesis by (metis mod_add_self2)
        qed
        ultimately show ?thesis using ph \<open>j = Suc j1\<close> Suc by simp
      qed
    qed
  next
    case False
    with Cons.prems(2) have lt: "ph < k" by simp
    show ?thesis
    proof (cases j)
      case 0
      then show ?thesis using False lt c by simp
    next
      case (Suc j1)
      have l: "j1 < length (grouped k (Suc ph) cs)" using Cons.prems(4) False Suc by simp
      have "(grouped k (Suc ph) cs ! j1 = CHR ''_'') \<longleftrightarrow> ((j1 + Suc ph) mod (k + 1) = k)"
        by (rule Cons.IH) (use Cons.prems(1) cs l lt in simp_all)
      then show ?thesis using False Suc by simp
    qed
  qed
qed

lemma decimal_digits_plain:
  "c \<in> set (map (digit_char up) (to_digits 10 n)) \<Longrightarrow> c \<notin> {CHR ''-'', CHR ''+'', CHR ''_''}"
proof -
  assume "c \<in> set (map (digit_char up) (to_digits 10 n))"
  then obtain d where d: "d \<in> set (to_digits 10 n)" "c = digit_char up d" by auto
  from to_digits_bound[OF _ d(1)] have "d < 16" by simp
  from digit_char_plain[OF this, of up] d(2) show ?thesis by simp
qed

lemma to_int_0: "to_int 0 = 0"
  by (simp add: to_int_def)

text \<open>The decimal rendering with width 0 and a positive spacer, before the suffix.\<close>

lemma insert_spacer_decimal:
  fixes i :: int
  assumes "0 < spacer fmt"
  defines "digits \<equiv> map (digit_char False) (to_digits 10 (nat \<bar>i\<bar>))"
  shows "insert_spacer fmt (put_integer 10 False 0 CHR '' '' i)
           = (if i < 0 then ''-'' else []) @ rev (grouped (spacer fmt) 0 (rev digits))"
proof -
  have ne: "digits \<noteq> []" by (simp add: digits_def to_digits_nonempty)
  have pl: "\<And>c. c \<in> set digits \<Longrightarrow> c \<notin> {CHR ''-'', CHR ''+'', CHR ''_''}"
    unfolding digits_def by (rule decimal_digits_plain)
  have hd: "hd digits \<noteq> CHR ''-''" "hd digits \<noteq> CHR ''+''" "hd digits \<noteq> CHR ''_''"
    using pl[of "hd digits"] ne by auto
  have p: "put_integer 10 False 0 CHR '' '' i = (if i < 0 then ''-'' else []) @ digits"
    by (simp add: put_integer_def digits_def Let_def)
  have g: "spacer_loop (spacer fmt) (rev digits) 0 [] = grouped (spacer fmt) 0 (rev digits)"
    using spacer_loop_grouped[OF assms(1), of "rev digits" 0 "[]"] by (simp add: phase_def)
  have l: "last (grouped (spacer fmt) 0 (rev digits)) \<noteq> CHR ''_''"
    using grouped_last[of "rev digits" "spacer fmt" 0] ne hd(3) by (simp add: last_rev)
  show ?thesis
  proof (cases "i < 0")
    case True
    then show ?thesis using assms(1) p g l by (simp add: insert_spacer_def Let_def)
  next
    case False
    then show ?thesis using assms(1) p g l ne hd by (simp add: insert_spacer_def Let_def)
  qed
qed

text \<open>
  C9. For a decimal integer with width 0 and a positive spacer, the output is the sign, if
  the value is negative, then a body, then the suffix part. The body without its
  separators is the digit string of the magnitude; counted from the right end of the body
  (position 0 is the last digit), position \<open>j\<close> holds a separator exactly if
  \<open>j mod (spacer + 1) = spacer\<close>, that is after every \<open>spacer\<close> digits; and the body
  starts with a digit, so no separator touches the sign. The two examples of the claim
  are the last two conjuncts.
\<close>

theorem decimal_grouping:
  "int_fmt fmt = dec \<and> width fmt = 0 \<and> 0 < spacer fmt \<longrightarrow>
     (\<exists>body.
        serialize_integer sp i fmt
          = Inr ((if i < 0 then ''-'' else []) @ body
                 @ (if ext_num_suffix sp \<and> int_suffix fmt \<noteq> [] then ''_'' @ int_suffix fmt else []))
        \<and> filter (\<lambda>c. c \<noteq> CHR ''_'') body = map (digit_char False) (to_digits 10 (nat \<bar>i\<bar>))
        \<and> (\<forall>j < length body. (rev body ! j = CHR ''_'') \<longleftrightarrow> (j mod (spacer fmt + 1) = spacer fmt))
        \<and> body \<noteq> [] \<and> hd body \<noteq> CHR ''_'')
     \<and> serialize_integer sp (- 42) (fmt\<lparr>spacer := 3, int_suffix := []\<rparr>) = Inr ''-42''
     \<and> serialize_integer sp 1234567 (fmt\<lparr>spacer := 3, int_suffix := []\<rparr>) = Inr ''1_234_567''"
proof (intro impI, elim conjE)
  assume f: "int_fmt fmt = dec" and w: "width fmt = 0" and k: "0 < spacer fmt"
  define digits where "digits = map (digit_char False) (to_digits 10 (nat \<bar>i\<bar>))"
  define body where "body = rev (grouped (spacer fmt) 0 (rev digits))"
  have ne: "digits \<noteq> []" by (simp add: digits_def to_digits_nonempty)
  have pl: "CHR ''_'' \<notin> set (rev digits)"
    using decimal_digits_plain[of "CHR ''_''" False "nat \<bar>i\<bar>"] by (auto simp: digits_def)
  have 1: "serialize_integer sp i fmt
          = Inr ((if i < 0 then ''-'' else []) @ body
                 @ (if ext_num_suffix sp \<and> int_suffix fmt \<noteq> [] then ''_'' @ int_suffix fmt else []))"
    using insert_spacer_decimal[OF k, of i] f w
    by (simp add: serialize_integer_def to_int_0 body_def digits_def Let_def)
  have 2: "filter (\<lambda>c. c \<noteq> CHR ''_'') body = digits"
    using grouped_filter[OF pl, of "spacer fmt" 0]
    by (simp add: body_def rev_filter[symmetric])
  have 3: "\<forall>j < length body. (rev body ! j = CHR ''_'') \<longleftrightarrow> (j mod (spacer fmt + 1) = spacer fmt)"
    using grouped_positions[OF k _ pl, of 0] by (simp add: body_def)
  have 4: "body \<noteq> []" using grouped_nonempty[of "rev digits" "spacer fmt" 0] ne
    by (simp add: body_def)
  have "last (grouped (spacer fmt) 0 (rev digits)) = last (rev digits)"
    using grouped_last[of "rev digits"] ne by simp
  with pl ne have "last (grouped (spacer fmt) 0 (rev digits)) \<noteq> CHR ''_''"
    by (metis last_in_set rev_is_Nil_conv)
  then have 5: "hd body \<noteq> CHR ''_''"
    using 4 by (simp add: body_def hd_rev)
  have e1: "serialize_integer sp (- 42) (fmt\<lparr>spacer := 3, int_suffix := []\<rparr>) = Inr ''-42''"
    using f w by (simp add: serialize_integer_def to_int_0 insert_spacer_def put_integer_def
        Let_def to_digits.simps digit_char_def char_of_eq_iff)
  have e2: "serialize_integer sp 1234567 (fmt\<lparr>spacer := 3, int_suffix := []\<rparr>) = Inr ''1_234_567''"
    using f w by (simp add: serialize_integer_def to_int_0 insert_spacer_def put_integer_def
        Let_def to_digits.simps digit_char_def char_of_eq_iff)
  from 1 2 3 4 5 e1 e2 show "(\<exists>body.
        serialize_integer sp i fmt
          = Inr ((if i < 0 then ''-'' else []) @ body
                 @ (if ext_num_suffix sp \<and> int_suffix fmt \<noteq> [] then ''_'' @ int_suffix fmt else []))
        \<and> filter (\<lambda>c. c \<noteq> CHR ''_'') body = map (digit_char False) (to_digits 10 (nat \<bar>i\<bar>))
        \<and> (\<forall>j < length body. (rev body ! j = CHR ''_'') \<longleftrightarrow> (j mod (spacer fmt + 1) = spacer fmt))
        \<and> body \<noteq> [] \<and> hd body \<noteq> CHR ''_'')
     \<and> serialize_integer sp (- 42) (fmt\<lparr>spacer := 3, int_suffix := []\<rparr>) = Inr ''-42''
     \<and> serialize_integer sp 1234567 (fmt\<lparr>spacer := 3, int_suffix := []\<rparr>) = Inr ''1_234_567''"
    unfolding digits_def by blast
qed

theorem decimal_grouping_witness:
  "int_fmt \<lparr>int_fmt = dec, uppercase = False, width = 0, spacer = 3, int_suffix = []\<rparr> = dec \<and>
   width \<lparr>int_fmt = dec, uppercase = False, width = 0, spacer = 3, int_suffix = []\<rparr> = 0 \<and>
   0 < spacer \<lparr>int_fmt = dec, uppercase = False, width = 0, spacer = 3, int_suffix = []\<rparr> \<and>
   serialize_integer default_version (- 42)
     \<lparr>int_fmt = dec, uppercase = False, width = 0, spacer = 3, int_suffix = []\<rparr> = Inr ''-42'' \<and>
   serialize_integer default_version 1234567
     \<lparr>int_fmt = dec, uppercase = False, width = 0, spacer = 3, int_suffix = []\<rparr>
     = Inr ''1_234_567''"
  using decimal_grouping[where sp = default_version and i = 0
      and fmt = "\<lparr>int_fmt = dec, uppercase = False, width = 0, spacer = 3, int_suffix = []\<rparr>"]
  by simp

section \<open>Properties of the array and table renderers\<close>

subsection \<open>What a renderer leaves of the serializer\<close>

text \<open>
  A renderer that returns leaves the key path, the indentation and the specification as
  it found them. The array and table renderers leave \<^verbatim>\<open>force_inline_\<close> false; the scalar
  encoders do not touch it.
\<close>

lemma foreach_invariant:
  assumes "foreach body xs st = Inr (s, st')" and "I st"
    and "\<And>x st0 r st1. x \<in> set xs \<Longrightarrow> I st0 \<Longrightarrow> body x st0 = Inr (r, st1) \<Longrightarrow> I st1"
  shows "I st'"
  using assms
proof (induction xs arbitrary: st s)
  case Nil
  then show ?case by simp
next
  case (Cons x xs)
  from Cons.prems(1) obtain r st1 r' where
    b: "body x st = Inr (r, st1)" and f: "foreach body xs st1 = Inr (r', st')"
    by (auto split: sum.splits prod.splits)
  have "I st1" using Cons.prems(3)[OF _ Cons.prems(2) b] by simp
  show ?case
  proof (rule Cons.IH[OF f \<open>I st1\<close>])
    fix y st0 r0 st2
    assume "y \<in> set xs" "I st0" "body y st0 = Inr (r0, st2)"
    then show "I st2" using Cons.prems(3)[of y st0 r0 st2] by simp
  qed
qed

lemma foreach_same:
  assumes "foreach body xs st = Inr (s, st')"
    and "\<And>x r st1. x \<in> set xs \<Longrightarrow> body x st = Inr (r, st1) \<Longrightarrow> st1 = st"
  shows "st' = st"
  using foreach_invariant[OF assms(1), of "\<lambda>s. s = st"] assms(2) by blast

lemma foreach_flag:
  assumes "foreach body xs st = Inr (s, st')"
    and "\<And>x r st0 st1. x \<in> set xs
           \<Longrightarrow> st0\<lparr>m_force_inline := False\<rparr> = st\<lparr>m_force_inline := False\<rparr>
           \<Longrightarrow> body x st0 = Inr (r, st1)
           \<Longrightarrow> st1\<lparr>m_force_inline := False\<rparr> = st\<lparr>m_force_inline := False\<rparr>"
  shows "st'\<lparr>m_force_inline := False\<rparr> = st\<lparr>m_force_inline := False\<rparr>"
  using foreach_invariant[OF assms(1),
      of "\<lambda>s. s\<lparr>m_force_inline := False\<rparr> = st\<lparr>m_force_inline := False\<rparr>"] assms(2)
  by blast

lemma pop_push_key [simp]: "pop_key (push_key k st) = st"
  by (simp add: pop_key_def push_key_def)

lemma indent_by_back [simp]: "indent_by (- n) (indent_by n st) = st"
  by (simp add: indent_by_def)

lemma array_form_aot_unforced:
  "array_form L st a fmt com = Inr array_of_tables \<Longrightarrow> \<not> m_force_inline st"
  by (auto simp: array_form_def split: sum.splits if_splits)

lemma frame:
  "\<forall>s st'. serialize_value L1 st1 v = Inr (s, st') \<longrightarrow>
      st' = st1\<lparr>m_force_inline := m_force_inline st1 \<and> \<not> is_array v \<and> \<not> is_table v\<rparr>"
  "\<forall>s st'. serialize_array L2 st2 a af ac = Inr (s, st') \<longrightarrow> st' = st2\<lparr>m_force_inline := False\<rparr>"
  "\<forall>s st'. serialize_table L3 st3 t3 tf3 tc3 = Inr (s, st') \<longrightarrow> st' = st3\<lparr>m_force_inline := False\<rparr>"
  "\<not> m_force_inline st4 \<longrightarrow> (\<forall>s st'. format_ml_table L4 st4 t4 tf4 = Inr (s, st') \<longrightarrow> st' = st4)"
  "\<forall>s st'. format_inline_table L5 st5 t5 tf5 = Inr (s, st') \<longrightarrow> st' = st5\<lparr>m_force_inline := False\<rparr>"
  "\<forall>s st'. format_ml_inline_table L6 st6 t6 tf6 = Inr (s, st') \<longrightarrow> st' = st6\<lparr>m_force_inline := False\<rparr>"
  "\<not> m_force_inline st7 \<longrightarrow>
     (\<forall>s st'. format_dotted_table L7 st7 t7 tf7 ks7 = Inr (s, st') \<longrightarrow> st' = st7)"
proof (induction L1 st1 v and L2 st2 a af ac and L3 st3 t3 tf3 tc3 and L4 st4 t4 tf4
    and L5 st5 t5 tf5 and L6 st6 t6 tf6 and L7 st7 t7 tf7 ks7
    rule: serialize_value_serialize_array_serialize_table_format_ml_table_format_inline_table_format_ml_inline_table_format_dotted_table.induct)
  case (1 L st b c)
  then show ?case by simp
next
  case (2 L st i f c)
  then show ?case by (simp split: sum.splits)
next
  case (3 L st x f c)
  then show ?case by simp
next
  case (4 L st s f c)
  then show ?case by (simp split: sum.splits)
next
  case (5 L st d f c)
  then show ?case by simp
next
  case (6 L st d f c)
  then show ?case by simp
next
  case (7 L st d c)
  then show ?case by simp
next
  case (8 L st t f c)
  then show ?case by simp
next
  case (9 L st a f c)
  then show ?case by simp
next
  case (10 L st t f c)
  then show ?case by (auto simp: Let_def split: sum.splits)
next
  case (11 L st c)
  then show ?case by simp
next
  case (12 L st a fmt com)
  show ?case
  proof (intro allI impI)
    fix s st'
    assume r: "serialize_array L st a fmt com = Inr (s, st')"
    from r obtain f where f: "array_form L st a fmt com = Inr f"
      by (subst (asm) serialize_array.simps) (auto split: sum.splits)
    show "st' = st\<lparr>m_force_inline := False\<rparr>"
    proof (cases "f = array_of_tables")
      case True
      with f have nf: "\<not> m_force_inline st" by (auto dest: array_form_aot_unforced)
      from r f True have k: "m_keys st \<noteq> []"
        by (subst (asm) serialize_array.simps) (auto split: if_splits)
      let ?body = "\<lambda>e st.
                    case e of
                      Table t tf tc \<Rightarrow>
                        (let st1 = indent_by (t_name_indent tf) st;
                             head = format_comments st1 tc (t_indent_type tf)
                                    @ format_indent st1 (t_indent_type tf)
                          in case format_keys L (m_spec st) (m_keys st) of
                               None \<Rightarrow> Inl BadOptionalAccess
                             | Some ks \<Rightarrow>
                                 (case format_ml_table L st t tf of
                                    Inl err \<Rightarrow> Inl err
                                  | Inr (s, st2) \<Rightarrow>
                                      Inr (head @ ''[['' @ ks @ '']]'' @ [newline] @ s, st2)))
                    | _ \<Rightarrow> Inl AssertFailed"
      from r f True k have fe: "foreach ?body a st = Inr (s, st')"
        by (subst (asm) serialize_array.simps) simp
      have "st' = st"
      proof (rule foreach_same[OF fe])
        fix x r st1
        assume x: "x \<in> set a" and b: "?body x st = Inr (r, st1)"
        from b obtain t tf tc where xt: "x = Table t tf tc" by (cases x) auto
        from b xt obtain ks where ks: "format_keys L (m_spec st) (m_keys st) = Some ks"
          by (auto simp: Let_def split: option.splits)
        from b xt ks obtain s2 where m: "format_ml_table L st t tf = Inr (s2, st1)"
          by (auto simp: Let_def split: sum.splits)
        from "12.IH"(1)[OF f True k x xt refl refl ks] nf m show "st1 = st" by blast
      qed
      with nf show ?thesis by simp
    next
      case False
      note naot = False
      show ?thesis
      proof (cases "f = array_oneline")
        case True
        let ?body = "\<lambda>e st.
                    case serialize_value L (st\<lparr>m_force_inline := True\<rparr>) e of
                      Inl err \<Rightarrow> Inl err
                    | Inr (s, st1) \<Rightarrow> Inr (s @ '', '', st1)"
        from r f naot True obtain body st1 where
          fe: "foreach ?body a st = Inr (body, st1)" and st': "st' = st1\<lparr>m_force_inline := False\<rparr>"
          by (subst (asm) serialize_array.simps) (auto split: sum.splits)
        have "st1\<lparr>m_force_inline := False\<rparr> = st\<lparr>m_force_inline := False\<rparr>"
        proof (rule foreach_flag[OF fe])
          fix x r st0 st2
          assume x: "x \<in> set a"
            and i: "st0\<lparr>m_force_inline := False\<rparr> = st\<lparr>m_force_inline := False\<rparr>"
            and b: "?body x st0 = Inr (r, st2)"
          from b obtain r' where "serialize_value L (st0\<lparr>m_force_inline := True\<rparr>) x = Inr (r', st2)"
            by (auto split: sum.splits)
          with "12.IH"(2)[OF f naot True x, of st0]
          have "st2\<lparr>m_force_inline := False\<rparr> = st0\<lparr>m_force_inline := False\<rparr>" by auto
          with i show "st2\<lparr>m_force_inline := False\<rparr> = st\<lparr>m_force_inline := False\<rparr>" by simp
        qed
        with st' show ?thesis by simp
      next
        case False
        let ?body = "\<lambda>e st.
                    let st1 = indent_by (a_body_indent fmt) st;
                        head = format_comments st1 (comments e) (a_indent_type fmt)
                               @ format_indent st1 (a_indent_type fmt)
                    in case serialize_value L (st\<lparr>m_force_inline := True\<rparr>) e of
                         Inl err \<Rightarrow> Inl err
                       | Inr (s, st2) \<Rightarrow> Inr (head @ s @ '','' @ [newline], st2)"
        from r f naot False obtain body st1 where
          fe: "foreach ?body a st = Inr (body, st1)" and st': "st' = st1\<lparr>m_force_inline := False\<rparr>"
          by (subst (asm) serialize_array.simps) (auto simp: Let_def split: sum.splits)
        have "st1\<lparr>m_force_inline := False\<rparr> = st\<lparr>m_force_inline := False\<rparr>"
        proof (rule foreach_flag[OF fe])
          fix x r st0 st2
          assume x: "x \<in> set a"
            and i: "st0\<lparr>m_force_inline := False\<rparr> = st\<lparr>m_force_inline := False\<rparr>"
            and b: "?body x st0 = Inr (r, st2)"
          from b obtain r' where "serialize_value L (st0\<lparr>m_force_inline := True\<rparr>) x = Inr (r', st2)"
            by (auto simp: Let_def split: sum.splits)
          with "12.IH"(3)[OF f naot False x refl refl, of st0]
          have "st2\<lparr>m_force_inline := False\<rparr> = st0\<lparr>m_force_inline := False\<rparr>" by auto
          with i show "st2\<lparr>m_force_inline := False\<rparr> = st\<lparr>m_force_inline := False\<rparr>" by simp
        qed
        with st' show ?thesis by simp
      qed
    qed
  qed
next
  case (13 L st t fmt com)
  show ?case
  proof (intro allI impI)
    fix s st'
    assume r: "serialize_table L st t fmt com = Inr (s, st')"
    show "st' = st\<lparr>m_force_inline := False\<rparr>"
    proof (cases "m_force_inline st")
      case True
      with r "13.IH"(1,2) show ?thesis
        by (subst (asm) serialize_table.simps) (auto split: if_splits)
    next
      case False
      note nf = False
      show ?thesis
      proof (cases "t_fmt fmt")
        case table_multiline
        from r nf table_multiline obtain s2 where "format_ml_table L st t fmt = Inr (s2, st')"
          by (subst (asm) serialize_table.simps) (auto simp: Let_def split: sum.splits)
        with "13.IH"(3)[OF nf table_multiline refl] nf show ?thesis by auto
      next
        case table_oneline
        with r nf "13.IH"(4) show ?thesis
          by (subst (asm) serialize_table.simps) auto
      next
        case table_multiline_oneline
        with r nf "13.IH"(5) show ?thesis
          by (subst (asm) serialize_table.simps) auto
      next
        case table_dotted
        from r nf table_dotted have k: "m_keys st \<noteq> []"
          and d: "format_dotted_table L st t fmt [last (m_keys st)] = Inr (s, st')"
          by (subst (asm) serialize_table.simps; auto split: if_splits)+
        with "13.IH"(6)[OF nf table_dotted k] nf show ?thesis by auto
      next
        case table_implicit
        let ?body = "\<lambda>(k, v) st.
               case check_implicit_child v of
                 Some err \<Rightarrow> Inl err
               | None \<Rightarrow>
                   (case serialize_value L (push_key k st) v of
                      Inl err \<Rightarrow> Inl err
                    | Inr (s, st1) \<Rightarrow> Inr (s, pop_key st1))"
        from r nf table_implicit have fe: "foreach ?body t st = Inr (s, st')"
          by (subst (asm) serialize_table.simps) simp
        have "st' = st"
        proof (rule foreach_same[OF fe])
          fix x r0 st1
          assume x: "x \<in> set t" and b: "?body x st = Inr (r0, st1)"
          obtain k v where kv: "x = (k, v)" by (cases x)
          from b kv have c: "check_implicit_child v = None" by (auto split: option.splits)
          from b kv c obtain st2 where
            v: "serialize_value L (push_key k st) v = Inr (r0, st2)" and p: "st1 = pop_key st2"
            by (auto split: sum.splits)
          from "13.IH"(7)[OF nf table_implicit x kv[symmetric] c, of "st"] v nf
          have "st2 = push_key k st" by (auto simp: push_key_def)
          with p show "st1 = st" by simp
        qed
        with nf show ?thesis by simp
      qed
    qed
  qed
next
  case (14 L st t fmt)
  show ?case
  proof (intro allI impI)
    fix s st'
    assume nf: "\<not> m_force_inline st" and r: "format_ml_table L st t fmt = Inr (s, st')"
    let ?b1 = "\<lambda>(key, val) st.
             if format_later val then Inr ([], st)
             else
               (let st1 = push_key key st;
                    head = format_comments st1 (comments val) (t_indent_type fmt)
                           @ format_indent st1 (t_indent_type fmt)
                in case serialize_value L st1 val of
                     Inl err \<Rightarrow> Inl err
                   | Inr (s, st2) \<Rightarrow>
                       Inr (if is_dotted_table val then head @ s
                            else head @ format_key L (m_spec st) key @ '' = '' @ s @ [newline],
                            pop_key st2))"
    let ?b2 = "\<lambda>(key, val) st.
                     if \<not> format_later val then Inr ([], st)
                     else
                       (case serialize_value L (push_key key st) val of
                          Inl err \<Rightarrow> Inl err
                        | Inr (s, st3) \<Rightarrow> Inr (s, pop_key st3))"
    let ?sb = "indent_by (t_body_indent fmt) st"
    from r obtain retval st1 where f1: "foreach ?b1 t ?sb = Inr (retval, st1)"
      by (subst (asm) format_ml_table.simps) (auto split: sum.splits)
    from r f1 obtain s2 where
      f2: "foreach ?b2 t (indent_by (- t_body_indent fmt) st1) = Inr (s2, st')"
      by (subst (asm) format_ml_table.simps) (auto simp: Let_def split: sum.splits)
    have nfb: "\<not> m_force_inline ?sb" using nf by (simp add: indent_by_def)
    have 1: "st1 = ?sb"
    proof (rule foreach_same[OF f1])
      fix x r0 st2
      assume x: "x \<in> set t" and b: "?b1 x ?sb = Inr (r0, st2)"
      obtain k v where kv: "x = (k, v)" by (cases x)
      show "st2 = ?sb"
      proof (cases "format_later v")
        case True
        with b kv show ?thesis by simp
      next
        case False
        from b kv False obtain r1 st3 where
          v: "serialize_value L (push_key k ?sb) v = Inr (r1, st3)" and p: "st2 = pop_key st3"
          by (auto simp: Let_def split: sum.splits)
        from "14.IH"(1)[OF x kv[symmetric] False refl refl, of ?sb] v nfb
        have "st3 = push_key k ?sb" by (auto simp: push_key_def)
        with p show ?thesis by simp
      qed
    qed
    then have 2: "indent_by (- t_body_indent fmt) st1 = st" by simp
    show "st' = st"
    proof (rule foreach_same[OF f2[unfolded 2]])
      fix x r0 st2
      assume x: "x \<in> set t" and b: "?b2 x st = Inr (r0, st2)"
      obtain k v where kv: "x = (k, v)" by (cases x)
      show "st2 = st"
      proof (cases "format_later v")
        case False
        with b kv show ?thesis by simp
      next
        case True
        from b kv True obtain st3 where
          v: "serialize_value L (push_key k st) v = Inr (r0, st3)" and p: "st2 = pop_key st3"
          by (auto split: sum.splits)
        have nn: "\<not> \<not> format_later v" using True by simp
        from "14.IH"(2)[OF f1 refl refl refl x kv[symmetric] nn, of st] v nf
        have "st3 = push_key k st" by (auto simp: push_key_def)
        with p show ?thesis by simp
      qed
    qed
  qed
next
  case (15 L st t fmt)
  show ?case
  proof (intro allI impI)
    fix s st'
    assume r: "format_inline_table L st t fmt = Inr (s, st')"
    let ?body = "\<lambda>(k, v) st.
             case serialize_value L (st\<lparr>m_force_inline := True\<rparr>) v of
               Inl err \<Rightarrow> Inl err
             | Inr (s, st1) \<Rightarrow> Inr (format_key L (m_spec st) k @ '' = '' @ s @ '', '', st1)"
    from r obtain body st1 where
      fe: "foreach ?body t st = Inr (body, st1)" and st': "st' = st1\<lparr>m_force_inline := False\<rparr>"
      by (subst (asm) format_inline_table.simps) (auto split: sum.splits)
    have "st1\<lparr>m_force_inline := False\<rparr> = st\<lparr>m_force_inline := False\<rparr>"
    proof (rule foreach_flag[OF fe])
      fix x r0 st0 st2
      assume x: "x \<in> set t"
        and i: "st0\<lparr>m_force_inline := False\<rparr> = st\<lparr>m_force_inline := False\<rparr>"
        and b: "?body x st0 = Inr (r0, st2)"
      obtain k v where kv: "x = (k, v)" by (cases x)
      from b kv obtain r1 where "serialize_value L (st0\<lparr>m_force_inline := True\<rparr>) v = Inr (r1, st2)"
        by (auto split: sum.splits)
      with "15.IH"[OF x kv[symmetric], of st0]
      have "st2\<lparr>m_force_inline := False\<rparr> = st0\<lparr>m_force_inline := False\<rparr>" by auto
      with i show "st2\<lparr>m_force_inline := False\<rparr> = st\<lparr>m_force_inline := False\<rparr>" by simp
    qed
    with st' show "st' = st\<lparr>m_force_inline := False\<rparr>" by simp
  qed
next
  case (16 L st t fmt)
  show ?case
  proof (intro allI impI)
    fix s st'
    assume r: "format_ml_inline_table L st t fmt = Inr (s, st')"
    let ?body = "\<lambda>(k, v) st.
             let st1 = st\<lparr>m_force_inline := True\<rparr>;
                 head = format_comments st1 (comments v) (t_indent_type fmt)
                        @ format_indent st1 (t_indent_type fmt)
             in case serialize_value L st1 v of
                  Inl err \<Rightarrow> Inl err
                | Inr (s, st2) \<Rightarrow> Inr (head @ k @ '' = '' @ s @ '','' @ [newline], st2)"
    let ?sb = "indent_by (t_body_indent fmt) st"
    from r obtain body st1 where
      fe: "foreach ?body t ?sb = Inr (body, st1)"
      and st': "st' = (indent_by (- t_body_indent fmt) st1)\<lparr>m_force_inline := False\<rparr>"
      by (subst (asm) format_ml_inline_table.simps) (auto simp: Let_def split: sum.splits)
    have "st1\<lparr>m_force_inline := False\<rparr> = ?sb\<lparr>m_force_inline := False\<rparr>"
    proof (rule foreach_flag[OF fe])
      fix x r0 st0 st2
      assume x: "x \<in> set t"
        and i: "st0\<lparr>m_force_inline := False\<rparr> = ?sb\<lparr>m_force_inline := False\<rparr>"
        and b: "?body x st0 = Inr (r0, st2)"
      obtain k v where kv: "x = (k, v)" by (cases x)
      from b kv obtain r1 where "serialize_value L (st0\<lparr>m_force_inline := True\<rparr>) v = Inr (r1, st2)"
        by (auto simp: Let_def split: sum.splits)
      with "16.IH"[OF x kv[symmetric] refl refl, of st0]
      have "st2\<lparr>m_force_inline := False\<rparr> = st0\<lparr>m_force_inline := False\<rparr>" by auto
      with i show "st2\<lparr>m_force_inline := False\<rparr> = ?sb\<lparr>m_force_inline := False\<rparr>" by simp
    qed
    then have "(indent_by (- t_body_indent fmt) st1)\<lparr>m_force_inline := False\<rparr>
        = (indent_by (- t_body_indent fmt) ?sb)\<lparr>m_force_inline := False\<rparr>"
      by (cases st1; cases st) (auto simp: indent_by_def)
    with st' show "st' = st\<lparr>m_force_inline := False\<rparr>" by simp
  qed
next
  case (17 L st t fmt keys)
  show ?case
  proof (intro allI impI)
    fix s st'
    assume nf: "\<not> m_force_inline st" and r: "format_dotted_table L st t fmt keys = Inr (s, st')"
    let ?body = "\<lambda>(key, val) st.
       case dotted_subtable val of
         Some (vt, vf) \<Rightarrow> format_dotted_table L st vt vf (keys @ [key])
       | None \<Rightarrow>
           (let head = format_comments st (comments val) (t_indent_type fmt)
                       @ format_indent st (t_indent_type fmt)
            in case format_keys L (m_spec st) (keys @ [key]) of
                 None \<Rightarrow> Inl BadOptionalAccess
               | Some ks \<Rightarrow>
                   (case serialize_value L (st\<lparr>m_force_inline := True\<rparr>) val of
                      Inl err \<Rightarrow> Inl err
                    | Inr (s, st1) \<Rightarrow>
                        Inr (head @ ks @ '' = '' @ s @ [newline],
                             st1\<lparr>m_force_inline := False\<rparr>)))"
    from r have fe: "foreach ?body t st = Inr (s, st')"
      by (subst (asm) format_dotted_table.simps) simp
    show "st' = st"
    proof (rule foreach_same[OF fe])
      fix x r0 st1
      assume x: "x \<in> set t" and b: "?body x st = Inr (r0, st1)"
      obtain k v where kv: "x = (k, v)" by (cases x)
      show "st1 = st"
      proof (cases "dotted_subtable v")
        case (Some p)
        obtain vt vf where p: "p = (vt, vf)" by (cases p)
        from b kv Some p have "format_dotted_table L st vt vf (keys @ [k]) = Inr (r0, st1)"
          by simp
        with "17.IH"(2)[OF x kv[symmetric] Some p[symmetric], of st] nf show ?thesis by auto
      next
        case None
        from b kv None obtain ks where ks: "format_keys L (m_spec st) (keys @ [k]) = Some ks"
          by (auto simp: Let_def split: option.splits)
        from b kv None ks obtain r1 st2 where
          v: "serialize_value L (st\<lparr>m_force_inline := True\<rparr>) v = Inr (r1, st2)"
          and e: "st1 = st2\<lparr>m_force_inline := False\<rparr>"
          by (auto simp: Let_def split: sum.splits)
        from "17.IH"(1)[OF x kv[symmetric] None refl ks] v
        have "st2\<lparr>m_force_inline := False\<rparr> = st\<lparr>m_force_inline := False\<rparr>" by auto
        with e nf show ?thesis by simp
      qed
    qed
  qed
qed

subsection \<open>Array renderer: the form of a default array\<close>

lemma approx_loop_form: "approx_loop L sp a n = Inr f \<Longrightarrow> f = array_oneline \<or> f = array_multiline"
proof (induction a arbitrary: n)
  case Nil
  then show ?case by simp
next
  case (Cons e es)
  show ?case
  proof (cases e)
    case (Boolean b c)
    with Cons show ?thesis by (auto split: if_splits)
  next
    case (Integer i fi c)
    with Cons show ?thesis by (auto split: if_splits sum.splits)
  next
    case (Floating x ff c)
    with Cons show ?thesis by (auto split: if_splits)
  next
    case (String s fs c)
    with Cons show ?thesis by (auto split: if_splits sum.splits)
  next
    case (OffsetDatetime d fo c)
    with Cons show ?thesis by (auto split: if_splits)
  next
    case (LocalDatetime d fl c)
    with Cons show ?thesis by (auto split: if_splits)
  next
    case (LocalDate d c)
    with Cons show ?thesis by (auto split: if_splits)
  next
    case (LocalTime t ft c)
    with Cons show ?thesis by (auto split: if_splits)
  next
    case (Array a fa c)
    with Cons show ?thesis by (auto split: if_splits)
  next
    case (Table t ft c)
    with Cons show ?thesis by (auto split: if_splits)
  next
    case (Empty c)
    with Cons show ?thesis by (auto split: if_splits)
  qed
qed




subsection \<open>The text of a loop whose rounds do not depend on each other\<close>

text \<open>
  What the specification says of a renderer is a text made of the renderings of the
  entries, each taken on its own. \<open>text_of\<close> is the text of an outcome;
  \<open>concat_results\<close> is the concatenation of independent renderings, or the first failure;
  \<open>join_results\<close> puts a separator between them instead of after each.
\<close>

definition text_of :: "outcome \<Rightarrow> error + string" where
  "text_of r = map_sum id fst r"

fun concat_results :: "('a \<Rightarrow> error + string) \<Rightarrow> 'a list \<Rightarrow> error + string" where
  "concat_results f [] = Inr []"
| "concat_results f (x # xs) =
     (case f x of
        Inl err \<Rightarrow> Inl err
      | Inr s \<Rightarrow> (case concat_results f xs of Inl err \<Rightarrow> Inl err | Inr s' \<Rightarrow> Inr (s @ s')))"

fun join_results :: "string \<Rightarrow> ('a \<Rightarrow> error + string) \<Rightarrow> 'a list \<Rightarrow> error + string" where
  "join_results sep f [] = Inr []"
| "join_results sep f [x] = f x"
| "join_results sep f (x # y # ys) =
     (case f x of
        Inl err \<Rightarrow> Inl err
      | Inr s \<Rightarrow>
          (case join_results sep f (y # ys) of
             Inl err \<Rightarrow> Inl err
           | Inr s' \<Rightarrow> Inr (s @ sep @ s')))"

lemma text_of_simps [simp]:
  "text_of (Inl err) = Inl err" "text_of (Inr (s, st)) = Inr s"
  by (simp_all add: text_of_def)

lemma foreach_text:
  assumes "R st"
    and "\<And>x s0. x \<in> set xs \<Longrightarrow> R s0 \<Longrightarrow>
           (case body x s0 of Inl err \<Rightarrow> g x = Inl err | Inr (r, s1) \<Rightarrow> g x = Inr r \<and> R s1)"
  shows "text_of (foreach body xs st) = concat_results g xs"
  using assms
proof (induction xs arbitrary: st)
  case Nil
  then show ?case by simp
next
  case (Cons x xs)
  have h: "case body x st of Inl err \<Rightarrow> g x = Inl err | Inr (r, s1) \<Rightarrow> g x = Inr r \<and> R s1"
    by (rule Cons.prems(2)) (simp_all add: Cons.prems(1))
  show ?case
  proof (cases "body x st")
    case (Inl err)
    with h show ?thesis by simp
  next
    case (Inr p)
    obtain r s1 where p: "p = (r, s1)" by (cases p)
    from h Inr p have g: "g x = Inr r" and R: "R s1" by simp_all
    have "text_of (foreach body xs s1) = concat_results g xs"
      by (rule Cons.IH[OF R]) (rule Cons.prems(2), simp_all)
    then show ?thesis using Inr p g
      by (cases "foreach body xs s1") (auto split: sum.splits)
  qed
qed

lemma concat_results_filter:
  "concat_results (\<lambda>x. if P x then g x else Inr []) xs = concat_results g (filter P xs)"
  by (induction xs) (auto split: sum.splits)

lemma concat_results_join:
  assumes "length sep = 2"
  shows "(case concat_results (\<lambda>x. case f x of Inl err \<Rightarrow> Inl err | Inr s \<Rightarrow> Inr (s @ sep)) xs of
            Inl err \<Rightarrow> Inl err
          | Inr body \<Rightarrow> Inr (drop_last2 xs body))
         = join_results sep f xs"
proof -
  let ?c = "concat_results (\<lambda>x. case f x of Inl err \<Rightarrow> Inl err | Inr s \<Rightarrow> Inr (s @ sep))"
  have b2: "butlast (butlast (j @ sep)) = j" for j :: string
    using assms by (cases sep; cases "tl sep") (auto simp: butlast_append)
  have "xs \<noteq> [] \<Longrightarrow>
        (case join_results sep f xs of Inl err \<Rightarrow> ?c xs = Inl err | Inr j \<Rightarrow> ?c xs = Inr (j @ sep))"
  proof (induction xs)
    case Nil
    then show ?case by simp
  next
    case (Cons x xs)
    show ?case
    proof (cases xs)
      case Nil
      then show ?thesis by (simp split: sum.splits)
    next
      case (Cons y ys)
      define c where "c = ?c xs"
      define j where "j = join_results sep f xs"
      have ne: "xs \<noteq> []" using Cons by simp
      from Cons.IH[OF ne] have ih: "case j of Inl err \<Rightarrow> c = Inl err | Inr j \<Rightarrow> c = Inr (j @ sep)"
        unfolding c_def j_def .
      have 1: "?c (x # xs)
          = (case f x of Inl err \<Rightarrow> Inl err
             | Inr s \<Rightarrow> (case c of Inl err \<Rightarrow> Inl err | Inr s' \<Rightarrow> Inr ((s @ sep) @ s')))"
        unfolding c_def by (simp split: sum.splits)
      have 2: "join_results sep f (x # xs)
          = (case f x of Inl err \<Rightarrow> Inl err
             | Inr s \<Rightarrow> (case j of Inl err \<Rightarrow> Inl err | Inr s' \<Rightarrow> Inr (s @ sep @ s')))"
        unfolding j_def Cons by simp
      show ?thesis unfolding 1 2 using ih by (auto split: sum.splits)
    qed
  qed
  then show ?thesis
    by (cases "xs = []") (auto simp: drop_last2_def b2 split: sum.splits)
qed

lemma format_indent_independent [simp]:
  "format_indent (st\<lparr>m_force_inline := b\<rparr>) it = format_indent st it"
  "format_indent (push_key k st) it = format_indent st it"
  by (simp_all add: format_indent_def push_key_def)

lemma format_comments_independent [simp]:
  "format_comments (st\<lparr>m_force_inline := b\<rparr>) c it = format_comments st c it"
  "format_comments (push_key k st) c it = format_comments st c it"
  by (cases c; simp cong: if_cong)+

lemma serialize_value_unforced:
  "serialize_value L st v = Inr (s, st') \<Longrightarrow>
   st'\<lparr>m_force_inline := False\<rparr> = st\<lparr>m_force_inline := False\<rparr>"
  using frame(1)[of L st v] by auto

lemma serialize_value_same:
  "\<not> m_force_inline st \<Longrightarrow> serialize_value L st v = Inr (s, st') \<Longrightarrow> st' = st"
  using frame(1)[of L st v] by auto

lemma same_but_forced:
  "s0\<lparr>m_force_inline := False\<rparr> = s1\<lparr>m_force_inline := False\<rparr>
   \<Longrightarrow> s0\<lparr>m_force_inline := b\<rparr> = s1\<lparr>m_force_inline := b\<rparr>"
  by (cases s0; cases s1) simp

subsection \<open>Table renderer: the multi-line inline form\<close>

text \<open>
  The text of one entry of a table in the multiline_oneline form, without the separator
  that follows it: the comments of the value and the indentation, both at the body
  indentation, the key, and the value rendered with \<^verbatim>\<open>force_inline_\<close> set.
\<close>

definition ml_inline_entry ::
  "library \<Rightarrow> serializer \<Rightarrow> table_format_info \<Rightarrow> string \<times> value \<Rightarrow> error + string" where
  "ml_inline_entry L st fmt =
     (\<lambda>(k, v).
        let inner = (indent_by (t_body_indent fmt) st)\<lparr>m_force_inline := True\<rparr>
        in case serialize_value L inner v of
             Inl err \<Rightarrow> Inl err
           | Inr (s, st1) \<Rightarrow>
               Inr (format_comments inner (comments v) (t_indent_type fmt)
                    @ format_indent inner (t_indent_type fmt)
                    @ format_key L (m_spec st) k @ '' = '' @ s))"

definition ml_inline_table_text ::
  "library \<Rightarrow> serializer \<Rightarrow> (string \<times> value) list \<Rightarrow> table_format_info \<Rightarrow> error + string" where
  "ml_inline_table_text L st t fmt =
     (case join_results ('','' @ [newline]) (ml_inline_entry L st fmt) t of
        Inl err \<Rightarrow> Inl err
      | Inr body \<Rightarrow>
          Inr (''{'' @ [newline] @ body
               @ format_indent (indent_by (t_closing_indent fmt) st) (t_indent_type fmt)
               @ ''}''))"

text \<open>
  C6 (as amended). For a table in the multiline_oneline form whose keys are all left
  unchanged by the key encoder, the output is an opening brace and a newline, then the
  entries, each made of its comments, the indentation at the body indentation, the key,
  \<open>=\<close> and the value, with a comma and a newline between two entries, then the
  indentation at the closing indentation and the closing brace. The last entry is not
  followed by a comma and a newline. If an entry fails, the first failure is the result.
\<close>

theorem format_ml_inline_table_text:
  "(\<forall>(k, v) \<in> set t. format_key L (m_spec st) k = k) \<longrightarrow>
   text_of (format_ml_inline_table L st t fmt) = ml_inline_table_text L st t fmt"
proof
  assume keys: "\<forall>(k, v) \<in> set t. format_key L (m_spec st) k = k"
  let ?body = "\<lambda>(k, v) st.
             let st1 = st\<lparr>m_force_inline := True\<rparr>;
                 head = format_comments st1 (comments v) (t_indent_type fmt)
                        @ format_indent st1 (t_indent_type fmt)
             in case serialize_value L st1 v of
                  Inl err \<Rightarrow> Inl err
                | Inr (s, st2) \<Rightarrow> Inr (head @ k @ '' = '' @ s @ '','' @ [newline], st2)"
  let ?sb = "indent_by (t_body_indent fmt) st"
  let ?R = "\<lambda>s0. s0\<lparr>m_force_inline := False\<rparr> = ?sb\<lparr>m_force_inline := False\<rparr>"
  let ?g = "\<lambda>x. case ml_inline_entry L st fmt x of
                  Inl err \<Rightarrow> Inl err
                | Inr s \<Rightarrow> Inr (s @ '','' @ [newline])"
  have t: "text_of (foreach ?body t ?sb) = concat_results ?g t"
  proof (rule foreach_text[where R = ?R])
    show "?R ?sb" by simp
  next
    fix x s0
    assume x: "x \<in> set t" and R: "?R s0"
    obtain k v where kv: "x = (k, v)" by (cases x)
    from keys x kv have key: "format_key L (m_spec st) k = k" by auto
    from R have s0: "s0\<lparr>m_force_inline := True\<rparr> = ?sb\<lparr>m_force_inline := True\<rparr>"
      by (rule same_but_forced)
    show "case ?body x s0 of Inl err \<Rightarrow> ?g x = Inl err | Inr (r, s1) \<Rightarrow> ?g x = Inr r \<and> ?R s1"
    proof (cases "serialize_value L (?sb\<lparr>m_force_inline := True\<rparr>) v")
      case (Inl err)
      then show ?thesis using kv s0 by (simp add: ml_inline_entry_def Let_def)
    next
      case (Inr p)
      obtain r s1 where p: "p = (r, s1)" by (cases p)
      from serialize_value_unforced[OF Inr[unfolded p]] have "?R s1" by simp
      then show ?thesis using kv s0 Inr p key by (simp add: ml_inline_entry_def Let_def)
    qed
  qed
  have j: "(case concat_results ?g t of Inl err \<Rightarrow> Inl err | Inr body \<Rightarrow> Inr (drop_last2 t body))
      = join_results ('','' @ [newline]) (ml_inline_entry L st fmt) t"
    by (rule concat_results_join) simp
  show "text_of (format_ml_inline_table L st t fmt) = ml_inline_table_text L st t fmt"
  proof (cases "foreach ?body t ?sb")
    case (Inl err)
    with t have "concat_results ?g t = Inl err" by simp
    with j have "join_results ('','' @ [newline]) (ml_inline_entry L st fmt) t = Inl err" by simp
    then show ?thesis using Inl
      by (simp add: format_ml_inline_table.simps ml_inline_table_text_def)
  next
    case (Inr p)
    obtain body st1 where p: "p = (body, st1)" by (cases p)
    from t Inr p have c: "concat_results ?g t = Inr body" by simp
    with j have jr: "join_results ('','' @ [newline]) (ml_inline_entry L st fmt) t
        = Inr (drop_last2 t body)" by simp
    have "st1\<lparr>m_force_inline := False\<rparr> = ?sb\<lparr>m_force_inline := False\<rparr>"
    proof -
      have "?R st1"
      proof (rule foreach_invariant[OF Inr[unfolded p], of ?R])
        show "?R ?sb" by simp
      next
        fix x st0 r st2
        assume "x \<in> set t" and R: "?R st0" and b: "?body x st0 = Inr (r, st2)"
        obtain k v where kv: "x = (k, v)" by (cases x)
        from b kv obtain r1 where
          "serialize_value L (st0\<lparr>m_force_inline := True\<rparr>) v = Inr (r1, st2)"
          by (auto simp: Let_def split: sum.splits)
        from serialize_value_unforced[OF this] R show "?R st2" by simp
      qed
      then show ?thesis .
    qed
    then have "m_current_indent st1 = m_current_indent ?sb"
      by (cases st1; cases st) (simp add: indent_by_def)
    then have i: "format_indent
          (indent_by (t_closing_indent fmt)
             ((indent_by (- t_body_indent fmt) st1)\<lparr>m_force_inline := False\<rparr>)) (t_indent_type fmt)
        = format_indent (indent_by (t_closing_indent fmt) st) (t_indent_type fmt)"
      by (simp add: format_indent_def indent_by_def)
    show ?thesis using Inr p jr i
      by (simp add: format_ml_inline_table.simps ml_inline_table_text_def Let_def)
  qed
qed

theorem format_ml_inline_table_text_witness:
  "format_key sample_library (m_spec (new_serializer default_version)) ''a'' = ''a'' \<and>
   format_key sample_library (m_spec (new_serializer default_version)) ''b'' = ''b'' \<and>
   text_of (format_ml_inline_table sample_library (new_serializer default_version)
      [(''a'', Boolean True discard_comments), (''b'', Boolean False discard_comments)]
      (sample_table_hint table_multiline_oneline))
     = Inr (''{'' @ [newline] @ ''a = true,'' @ [newline] @ ''b = false}'')"
proof -
  have k: "\<forall>(k, v) \<in> set [(''a'', Boolean True discard_comments), (''b'', Boolean False discard_comments)].
      format_key sample_library (m_spec (new_serializer default_version)) k = k"
    by (simp add: format_key_def sample_library_def)
  have e: "ml_inline_table_text sample_library (new_serializer default_version)
      [(''a'', Boolean True discard_comments), (''b'', Boolean False discard_comments)]
      (sample_table_hint table_multiline_oneline)
     = Inr (''{'' @ [newline] @ ''a = true,'' @ [newline] @ ''b = false}'')"
    by (simp add: ml_inline_table_text_def ml_inline_entry_def format_key_def sample_library_def
        sample_table_hint_def new_serializer_def indent_by_def format_indent_def
        serialize_boolean_def newline_def)
  from format_ml_inline_table_text[of
      "[(''a'', Boolean True discard_comments), (''b'', Boolean False discard_comments)]"
      sample_library "new_serializer default_version"
      "sample_table_hint table_multiline_oneline"] k e
  show ?thesis by simp
qed

text \<open>
  C6 as stated fails: a table of one entry in the multiline_oneline form is rendered
  without a comma and a newline after that entry; the closing brace follows the value.
\<close>

theorem format_ml_inline_table_text_counterexample:
  "format sample_library
     (Table [(''a'', Boolean True discard_comments)] (sample_table_hint table_multiline_oneline)
        discard_comments) default_version
     = Inr (''{'' @ [newline] @ ''a = true}'')
   \<and> ''{'' @ [newline] @ ''a = true}'' \<noteq> ''{'' @ [newline] @ ''a = true,'' @ [newline] @ ''}''"
  by (simp add: format_def serialize_table.simps format_ml_inline_table.simps
      sample_table_hint_def new_serializer_def indent_by_def format_indent_def
      serialize_boolean_def drop_last2_def newline_def)

subsection \<open>Table renderer: the two passes of the multi-line body\<close>

lemma foreach_text_same:
  assumes "\<And>x. x \<in> set xs \<Longrightarrow>
           (case body x st of Inl err \<Rightarrow> g x = Inl err | Inr (r, s1) \<Rightarrow> g x = Inr r \<and> s1 = st)"
  shows "foreach body xs st
         = (case concat_results g xs of Inl err \<Rightarrow> Inl err | Inr s \<Rightarrow> Inr (s, st))"
  using assms
proof (induction xs)
  case Nil
  then show ?case by simp
next
  case (Cons x xs)
  have h: "case body x st of Inl err \<Rightarrow> g x = Inl err | Inr (r, s1) \<Rightarrow> g x = Inr r \<and> s1 = st"
    by (rule Cons.prems) simp
  have ih: "foreach body xs st
         = (case concat_results g xs of Inl err \<Rightarrow> Inl err | Inr s \<Rightarrow> Inr (s, st))"
    by (rule Cons.IH) (rule Cons.prems, simp)
  show ?case
  proof (cases "body x st")
    case (Inl err)
    with h show ?thesis by simp
  next
    case (Inr p)
    obtain r s1 where p: "p = (r, s1)" by (cases p)
    from h Inr p have "g x = Inr r" "s1 = st" by simp_all
    with Inr p ih show ?thesis by (simp split: sum.splits)
  qed
qed

text \<open>
  Following the words of the specification, not the source: a value is header-style if it
  is written under headers, that is, a table in the header-block form (\<open>multiline\<close>) or
  declared through the headers of its descendants (\<open>implicit\<close>), or an array of tables
  for which the array renderer chooses the form \<open>array_of_tables\<close>: the hint says so, or
  the hint is the default and the array carries no comment. The other tables are the
  inline containers and the dotted tables.
\<close>

definition header_style :: "value \<Rightarrow> bool" where
  "header_style v =
     (case v of
        Table t f c \<Rightarrow> t_fmt f = table_multiline \<or> t_fmt f = table_implicit
      | Array a f c \<Rightarrow>
          is_array_of_tables v
          \<and> (a_fmt f = array_of_tables \<or> (a_fmt f = array_default_format \<and> comments_empty c))
      | _ \<Rightarrow> False)"

text \<open>
  Under a key and outside an inline container, the header-style arrays are the arrays of
  tables that the array renderer writes in the form \<open>array_of_tables\<close>.
\<close>

lemma header_style_array:
  assumes "\<not> m_force_inline st" and "m_keys st \<noteq> []"
  shows "header_style (Array a f c)
         \<longleftrightarrow> is_array_of_tables (Array a f c) \<and> array_form L st a f c = Inr array_of_tables"
proof (cases "a_fmt f = array_default_format")
  case True
  show ?thesis
  proof (cases "a \<noteq> [] \<and> comments_empty c \<and> list_all is_table a")
    case True
    with \<open>a_fmt f = array_default_format\<close> assms show ?thesis
      by (simp add: header_style_def array_form_def resolved_form_def resolve_default_format_def)
  next
    case False
    have "approx_loop L (m_spec st) a 0 \<noteq> Inr array_of_tables"
      using approx_loop_form[of L "m_spec st" a 0] by auto
    with False \<open>a_fmt f = array_default_format\<close> assms show ?thesis
      by (auto simp: header_style_def array_form_def resolved_form_def
          resolve_default_format_def split: sum.splits)
  qed
next
  case False
  with assms show ?thesis
    by (auto simp: header_style_def array_form_def resolved_form_def)
qed

text \<open>
  The test \<^verbatim>\<open>format_later\<close> of the source looks at the hint of an array and not at its
  comments. It differs from \<open>header_style\<close> on one kind of value only: an array of tables
  with the default hint that carries a comment, which the array renderer writes as a
  multi-line array.
\<close>

definition commented_default_array_of_tables :: "value \<Rightarrow> bool" where
  "commented_default_array_of_tables v =
     (case v of
        Array a f c \<Rightarrow>
          is_array_of_tables v \<and> a_fmt f = array_default_format \<and> \<not> comments_empty c
      | _ \<Rightarrow> False)"

lemma format_later_header_style:
  "format_later v \<longleftrightarrow> header_style v \<or> commented_default_array_of_tables v"
proof (cases v)
  case (Array a f c)
  then show ?thesis
    by (cases "a_fmt f")
      (auto simp: format_later_def header_style_def commented_default_array_of_tables_def)
next
  case (Table t f c)
  then show ?thesis
    by (cases "t_fmt f")
      (auto simp: format_later_def header_style_def commented_default_array_of_tables_def)
qed (simp_all add: format_later_def header_style_def commented_default_array_of_tables_def)

lemma header_style_not_commented:
  "header_style v \<Longrightarrow> \<not> commented_default_array_of_tables v"
  by (cases v) (auto simp: header_style_def commented_default_array_of_tables_def)

text \<open>
  The text of an entry of the first pass: the comments of the value and the indentation,
  both at the body indentation, then the rendering of a dotted table as it is, or the key,
  \<open>=\<close>, the rendering of the value and a newline. The text of an entry of the second
  pass is the rendering of the value with the key path extended by the key.
\<close>

definition ml_table_leaf ::
  "library \<Rightarrow> serializer \<Rightarrow> table_format_info \<Rightarrow> string \<times> value \<Rightarrow> error + string" where
  "ml_table_leaf L st fmt =
     (\<lambda>(k, v).
        let inner = push_key k (indent_by (t_body_indent fmt) st)
        in case serialize_value L inner v of
             Inl err \<Rightarrow> Inl err
           | Inr (s, st1) \<Rightarrow>
               Inr (format_comments inner (comments v) (t_indent_type fmt)
                    @ format_indent inner (t_indent_type fmt)
                    @ (if is_dotted_table v then s
                       else format_key L (m_spec st) k @ '' = '' @ s @ [newline])))"

definition ml_table_section :: "library \<Rightarrow> serializer \<Rightarrow> string \<times> value \<Rightarrow> error + string" where
  "ml_table_section L st = (\<lambda>(k, v). text_of (serialize_value L (push_key k st) v))"

definition ml_table_text ::
  "library \<Rightarrow> serializer \<Rightarrow> (string \<times> value) list \<Rightarrow> table_format_info \<Rightarrow> error + string" where
  "ml_table_text L st t fmt =
     (case concat_results (ml_table_leaf L st fmt) (filter (\<lambda>(k, v). \<not> header_style v) t) of
        Inl err \<Rightarrow> Inl err
      | Inr leaves \<Rightarrow>
          (case concat_results (ml_table_section L st) (filter (\<lambda>(k, v). header_style v) t) of
             Inl err \<Rightarrow> Inl err
           | Inr sections \<Rightarrow>
               Inr (leaves @ (if leaves \<noteq> [] then [newline] else []) @ sections)))"

text \<open>
  C4 (as amended). The body of a multi-line table, rendered with \<^verbatim>\<open>force_inline_\<close> not
  set, is made in two passes over the same entries. The first pass emits, in the order of
  the container, exactly the entries whose value is not a header-style table or array of
  tables; the second pass emits exactly the header-style entries, each by rendering its
  value with the key path extended. A newline is appended to the text of the first pass
  whenever that text is not empty, whether or not a header-style entry follows. If an
  entry fails, the first failure in this order is the result. Both callers of
  \<^verbatim>\<open>format_ml_table\<close>, the table renderer and the array-of-tables branch of the array
  renderer, run it only when \<^verbatim>\<open>force_inline_\<close> is not set. The statement is about the
  tables none of whose entries is an array of tables with the default hint and a comment.
\<close>

theorem format_ml_table_two_pass:
  "\<not> m_force_inline st \<and> (\<forall>(k, v) \<in> set t. \<not> commented_default_array_of_tables v) \<longrightarrow>
   text_of (format_ml_table L st t fmt) = ml_table_text L st t fmt"
proof
  assume a: "\<not> m_force_inline st \<and> (\<forall>(k, v) \<in> set t. \<not> commented_default_array_of_tables v)"
  then have nf: "\<not> m_force_inline st" by simp
  have later: "format_later v = header_style v" if "(k, v) \<in> set t" for k v
    using a that by (auto simp: format_later_header_style)
  let ?b1 = "\<lambda>(key, val) st.
             if format_later val then Inr ([], st)
             else
               (let st1 = push_key key st;
                    head = format_comments st1 (comments val) (t_indent_type fmt)
                           @ format_indent st1 (t_indent_type fmt)
                in case serialize_value L st1 val of
                     Inl err \<Rightarrow> Inl err
                   | Inr (s, st2) \<Rightarrow>
                       Inr (if is_dotted_table val then head @ s
                            else head @ format_key L (m_spec st) key @ '' = '' @ s @ [newline],
                            pop_key st2))"
  let ?b2 = "\<lambda>(key, val) st.
                     if \<not> format_later val then Inr ([], st)
                     else
                       (case serialize_value L (push_key key st) val of
                          Inl err \<Rightarrow> Inl err
                        | Inr (s, st3) \<Rightarrow> Inr (s, pop_key st3))"
  let ?sb = "indent_by (t_body_indent fmt) st"
  let ?P1 = "\<lambda>(k, v). \<not> header_style v"
  let ?P2 = "\<lambda>(k, v). header_style v"
  let ?g1 = "\<lambda>x. if ?P1 x then ml_table_leaf L st fmt x else Inr []"
  let ?g2 = "\<lambda>x. if ?P2 x then ml_table_section L st x else Inr []"
  have nfb: "\<not> m_force_inline ?sb" using nf by (simp add: indent_by_def)
  have sp: "m_spec ?sb = m_spec st" by (simp add: indent_by_def)
  have 1: "foreach ?b1 t ?sb
      = (case concat_results ?g1 t of Inl err \<Rightarrow> Inl err | Inr s \<Rightarrow> Inr (s, ?sb))"
  proof (rule foreach_text_same)
    fix x assume xt: "x \<in> set t"
    obtain k v where kv: "x = (k, v)" by (cases x)
    from xt kv have l: "format_later v = header_style v" by (simp add: later)
    show "case ?b1 x ?sb of Inl err \<Rightarrow> ?g1 x = Inl err | Inr (r, s1) \<Rightarrow> ?g1 x = Inr r \<and> s1 = ?sb"
    proof (cases "header_style v")
      case True
      with kv l show ?thesis by simp
    next
      case False
      have nfk: "\<not> m_force_inline (push_key k ?sb)" using nfb by (simp add: push_key_def)
      show ?thesis
      proof (cases "serialize_value L (push_key k ?sb) v")
        case (Inl err)
        with kv False l show ?thesis by (simp add: ml_table_leaf_def Let_def)
      next
        case (Inr p)
        obtain r s1 where p: "p = (r, s1)" by (cases p)
        from serialize_value_same[OF nfk Inr[unfolded p]] have "s1 = push_key k ?sb" .
        with kv False l Inr p sp show ?thesis by (simp add: ml_table_leaf_def Let_def)
      qed
    qed
  qed
  have 2: "foreach ?b2 t st
      = (case concat_results ?g2 t of Inl err \<Rightarrow> Inl err | Inr s \<Rightarrow> Inr (s, st))"
  proof (rule foreach_text_same)
    fix x assume xt: "x \<in> set t"
    obtain k v where kv: "x = (k, v)" by (cases x)
    from xt kv have l: "format_later v = header_style v" by (simp add: later)
    show "case ?b2 x st of Inl err \<Rightarrow> ?g2 x = Inl err | Inr (r, s1) \<Rightarrow> ?g2 x = Inr r \<and> s1 = st"
    proof (cases "header_style v")
      case False
      with kv l show ?thesis by simp
    next
      case True
      have nfk: "\<not> m_force_inline (push_key k st)" using nf by (simp add: push_key_def)
      show ?thesis
      proof (cases "serialize_value L (push_key k st) v")
        case (Inl err)
        with kv True l show ?thesis by (simp add: ml_table_section_def)
      next
        case (Inr p)
        obtain r s1 where p: "p = (r, s1)" by (cases p)
        from serialize_value_same[OF nfk Inr[unfolded p]] have "s1 = push_key k st" .
        with kv True l Inr p show ?thesis by (simp add: ml_table_section_def)
      qed
    qed
  qed
  have f1: "concat_results ?g1 t = concat_results (ml_table_leaf L st fmt) (filter ?P1 t)"
    by (rule concat_results_filter)
  have f2: "concat_results ?g2 t = concat_results (ml_table_section L st) (filter ?P2 t)"
    by (rule concat_results_filter)
  show "text_of (format_ml_table L st t fmt) = ml_table_text L st t fmt"
    unfolding format_ml_table.simps[of L st t fmt] ml_table_text_def 1 2[unfolded f2] f1
    by (simp add: 2[unfolded f2] Let_def split: sum.splits)
qed

theorem format_ml_table_two_pass_witness:
  "\<not> m_force_inline (new_serializer default_version)
   \<and> \<not> commented_default_array_of_tables
         (Table [(''b'', Boolean False discard_comments)] (sample_table_hint table_multiline)
            discard_comments)
   \<and> \<not> commented_default_array_of_tables (Boolean True discard_comments)
   \<and> \<not> commented_default_array_of_tables
         (Array [Table [] (sample_table_hint table_multiline) discard_comments]
            (sample_array_hint array_default_format) discard_comments)
   \<and> text_of (format_ml_table sample_library (new_serializer default_version)
      [(''t'', Table [(''b'', Boolean False discard_comments)] (sample_table_hint table_multiline)
                discard_comments),
       (''a'', Boolean True discard_comments),
       (''s'', Array [Table [] (sample_table_hint table_multiline) discard_comments]
                 (sample_array_hint array_default_format) discard_comments)]
      (sample_table_hint table_multiline))
     = Inr (''a = true'' @ [newline, newline] @ ''[t]'' @ [newline] @ ''b = false''
            @ [newline, newline] @ ''[[s]]'' @ [newline])"
proof -
  have n: "\<not> m_force_inline (new_serializer default_version)"
    by (simp add: new_serializer_def)
  have c: "\<not> commented_default_array_of_tables
         (Table [(''b'', Boolean False discard_comments)] (sample_table_hint table_multiline)
            discard_comments)"
    "\<not> commented_default_array_of_tables (Boolean True discard_comments)"
    "\<not> commented_default_array_of_tables
         (Array [Table [] (sample_table_hint table_multiline) discard_comments]
            (sample_array_hint array_default_format) discard_comments)"
    by (simp_all add: commented_default_array_of_tables_def)
  have e: "ml_table_text sample_library (new_serializer default_version)
      [(''t'', Table [(''b'', Boolean False discard_comments)] (sample_table_hint table_multiline)
                discard_comments),
       (''a'', Boolean True discard_comments),
       (''s'', Array [Table [] (sample_table_hint table_multiline) discard_comments]
                 (sample_array_hint array_default_format) discard_comments)]
      (sample_table_hint table_multiline)
     = Inr (''a = true'' @ [newline, newline] @ ''[t]'' @ [newline] @ ''b = false''
            @ [newline, newline] @ ''[[s]]'' @ [newline])"
    by (simp add: ml_table_text_def ml_table_leaf_def ml_table_section_def header_style_def
        format_later_def is_dotted_table_def serialize_table.simps serialize_array.simps
        format_ml_table.simps array_form_def resolved_form_def resolve_default_format_def
        format_key_def format_keys_def sample_library_def sample_array_hint_def
        sample_table_hint_def new_serializer_def indent_by_def push_key_def pop_key_def
        format_indent_def serialize_boolean_def newline_def)
  from format_ml_table_two_pass[of "new_serializer default_version" _ sample_library
      "sample_table_hint table_multiline"] n c e
  show ?thesis by simp
qed

text \<open>
  C4 as stated fails: a table whose only entry is a boolean has no header-style entry, and
  its body still ends with the blank line.
\<close>

theorem format_ml_table_two_pass_counterexample:
  "format sample_library
     (Table [(''a'', Boolean True discard_comments)] (sample_table_hint table_multiline)
        discard_comments) default_version
     = Inr (''a = true'' @ [newline, newline])
   \<and> filter (\<lambda>(k, v). header_style v) [(''a'', Boolean True discard_comments)] = []"
  by (simp add: format_def serialize_table.simps format_ml_table.simps format_later_def
      header_style_def is_dotted_table_def format_key_def format_keys_def sample_library_def
      sample_table_hint_def new_serializer_def indent_by_def push_key_def pop_key_def
      format_indent_def serialize_boolean_def newline_def)

text \<open>
  The entries left out of C4: an array of tables with the default hint and a comment is
  kept for the second pass by \<^verbatim>\<open>format_later\<close>, and the array renderer then writes it as
  a multi-line array, without its key.
\<close>

lemma commented_default_array_of_tables_entry:
  "format sample_library
     (Table [(''a'', Array [Table [(''x'', Integer 1 sample_integer_hint discard_comments)]
                              (sample_table_hint table_multiline) discard_comments]
                       (sample_array_hint array_default_format) (preserve_comments [''# c''])),
             (''b'', Integer 2 sample_integer_hint discard_comments)]
        (sample_table_hint table_multiline) discard_comments) default_version
     = Inr (''b = 2'' @ [newline, newline] @ ''['' @ [newline] @ ''    {x = 1},'' @ [newline]
            @ '']'')"
  by code_simp

subsection \<open>The inline-forced flag at the recursion points of the driver\<close>

text \<open>
  A container around a value, by the form in which it is rendered. The inline-context
  containers are the one-line and multi-line arrays, the one-line and multi-line one-line
  tables and the dotted tables.
\<close>

datatype container = In_array array_format | In_table table_format

fun inline_context :: "container \<Rightarrow> bool" where
  "inline_context (In_array f) = (f = array_oneline \<or> f = array_multiline)"
| "inline_context (In_table f) =
     (f = table_oneline \<or> f = table_multiline_oneline \<or> f = table_dotted)"

text \<open>
  A recursion point of the driver: the containers around the value that the driver is
  called for, outermost first, and \<^verbatim>\<open>force_inline_\<close> at the call. A traced run is the
  outcome together with the recursion points passed, in the order of the calls; an
  exception keeps the recursion points passed before it.
\<close>

type_synonym event = "container list \<times> bool"

type_synonym traced = "outcome \<times> event list"

fun foreach_traced :: "('a \<Rightarrow> serializer \<Rightarrow> traced) \<Rightarrow> 'a list \<Rightarrow> serializer \<Rightarrow> traced" where
  "foreach_traced body [] st = (Inr ([], st), [])"
| "foreach_traced body (x # xs) st =
     (case body x st of
        (Inl err, evs) \<Rightarrow> (Inl err, evs)
      | (Inr (s, st1), evs) \<Rightarrow>
          (case foreach_traced body xs st1 of
             (Inl err, evs') \<Rightarrow> (Inl err, evs @ evs')
           | (Inr (s', st2), evs') \<Rightarrow> (Inr (s @ s', st2), evs @ evs')))"

lemma foreach_traced_cong [fundef_cong]:
  "xs = ys \<Longrightarrow> st = st' \<Longrightarrow> (\<And>x s. x \<in> set ys \<Longrightarrow> f x s = g x s) \<Longrightarrow>
   foreach_traced f xs st = foreach_traced g ys st'"
proof (induction ys arbitrary: xs st st')
  case Nil
  then show ?case by simp
next
  case (Cons y ys)
  have "foreach_traced f ys s = foreach_traced g ys s" for s
    by (rule Cons.IH) (simp_all add: Cons.prems(3))
  with Cons.prems show ?case by (simp split: sum.splits prod.splits)
qed

text \<open>
  The driver, the two renderers and the four table formatters once more, each with the
  containers around the value it renders as a further argument: the same statements in
  the same order, where the driver records the containers and \<^verbatim>\<open>force_inline_\<close> when it
  is entered, and a loop that calls the driver for the elements of a container adds the
  container to those around the element. For a value that is neither an array nor a
  table the driver makes no further call of itself, and the traced driver returns what
  the driver returns.
\<close>

function (sequential) traced_value :: "library \<Rightarrow> container list \<Rightarrow> serializer \<Rightarrow> value \<Rightarrow> traced"
and traced_array ::
  "library \<Rightarrow> container list \<Rightarrow> serializer \<Rightarrow> value list \<Rightarrow> array_format_info \<Rightarrow> comment_type
     \<Rightarrow> traced"
and traced_table ::
  "library \<Rightarrow> container list \<Rightarrow> serializer \<Rightarrow> (string \<times> value) list \<Rightarrow> table_format_info
     \<Rightarrow> comment_type \<Rightarrow> traced"
and traced_ml_table ::
  "library \<Rightarrow> container list \<Rightarrow> serializer \<Rightarrow> (string \<times> value) list \<Rightarrow> table_format_info
     \<Rightarrow> traced"
and traced_inline_table ::
  "library \<Rightarrow> container list \<Rightarrow> serializer \<Rightarrow> (string \<times> value) list \<Rightarrow> table_format_info
     \<Rightarrow> traced"
and traced_ml_inline_table ::
  "library \<Rightarrow> container list \<Rightarrow> serializer \<Rightarrow> (string \<times> value) list \<Rightarrow> table_format_info
     \<Rightarrow> traced"
and traced_dotted_table ::
  "library \<Rightarrow> container list \<Rightarrow> serializer \<Rightarrow> (string \<times> value) list \<Rightarrow> table_format_info
     \<Rightarrow> string list \<Rightarrow> traced"
where
  "traced_value L ctx st (Array a f c) =
     (case traced_array L ctx st a f c of
        (r, evs) \<Rightarrow> (r, (ctx, m_force_inline st) # evs))"
| "traced_value L ctx st (Table t f c) =
     (let retval = (if m_keys st = [] then format_comments st c (t_indent_type f) else []);
          retval1 = (if retval \<noteq> [] then retval @ [newline] else retval)
      in case traced_table L ctx st t f c of
           (Inl err, evs) \<Rightarrow> (Inl err, (ctx, m_force_inline st) # evs)
         | (Inr (s, st1), evs) \<Rightarrow> (Inr (retval1 @ s, st1), (ctx, m_force_inline st) # evs))"
| "traced_value L ctx st v = (serialize_value L st v, [(ctx, m_force_inline st)])"

| "traced_array L ctx st a fmt com =
     (case array_form L st a fmt com of
        Inl err \<Rightarrow> (Inl err, [])
      | Inr f \<Rightarrow>
          if f = array_of_tables
          then
            (if m_keys st = [] then (Inl MissingKey, [])
             else foreach_traced (\<lambda>e st.
                    case e of
                      Table t tf tc \<Rightarrow>
                        (let st1 = indent_by (t_name_indent tf) st;
                             head = format_comments st1 tc (t_indent_type tf)
                                    @ format_indent st1 (t_indent_type tf)
                          in case format_keys L (m_spec st) (m_keys st) of
                               None \<Rightarrow> (Inl BadOptionalAccess, [])
                             | Some ks \<Rightarrow>
                                 (case traced_ml_table L (ctx @ [In_array array_of_tables]) st t tf of
                                    (Inl err, evs) \<Rightarrow> (Inl err, evs)
                                  | (Inr (s, st2), evs) \<Rightarrow>
                                      (Inr (head @ ''[['' @ ks @ '']]'' @ [newline] @ s, st2), evs)))
                    | _ \<Rightarrow> (Inl AssertFailed, [])) a st)
          else if f = array_oneline
          then
            (case foreach_traced (\<lambda>e st.
                    case traced_value L (ctx @ [In_array array_oneline])
                           (st\<lparr>m_force_inline := True\<rparr>) e of
                      (Inl err, evs) \<Rightarrow> (Inl err, evs)
                    | (Inr (s, st1), evs) \<Rightarrow> (Inr (s @ '', '', st1), evs)) a st of
               (Inl err, evs) \<Rightarrow> (Inl err, evs)
             | (Inr (body, st1), evs) \<Rightarrow>
                 (Inr (''['' @ drop_last2 a body @ '']'', st1\<lparr>m_force_inline := False\<rparr>), evs))
          else
            (case foreach_traced (\<lambda>e st.
                    let st1 = indent_by (a_body_indent fmt) st;
                        head = format_comments st1 (comments e) (a_indent_type fmt)
                               @ format_indent st1 (a_indent_type fmt)
                    in case traced_value L (ctx @ [In_array array_multiline])
                              (st\<lparr>m_force_inline := True\<rparr>) e of
                         (Inl err, evs) \<Rightarrow> (Inl err, evs)
                       | (Inr (s, st2), evs) \<Rightarrow> (Inr (head @ s @ '','' @ [newline], st2), evs))
                    a st of
               (Inl err, evs) \<Rightarrow> (Inl err, evs)
             | (Inr (body, st1), evs) \<Rightarrow>
                 (let st2 = st1\<lparr>m_force_inline := False\<rparr>
                  in (Inr (''['' @ [newline] @ body
                           @ format_indent (indent_by (a_closing_indent fmt) st2)
                               (a_indent_type fmt)
                           @ '']'', st2), evs))))"

| "traced_table L ctx st t fmt com =
     (if m_force_inline st
      then (if t_fmt fmt = table_multiline_oneline then traced_ml_inline_table L ctx st t fmt
            else traced_inline_table L ctx st t fmt)
      else
        (case t_fmt fmt of
           table_multiline \<Rightarrow>
             (let retval =
                    (case format_keys L (m_spec st) (m_keys st) of
                       Some k \<Rightarrow>
                         (let st1 = indent_by (t_name_indent fmt) st
                          in format_comments st1 com (t_indent_type fmt)
                             @ format_indent st1 (t_indent_type fmt)
                             @ ''['' @ k @ '']'' @ [newline])
                     | None \<Rightarrow> [])
              in case traced_ml_table L ctx st t fmt of
                   (Inl err, evs) \<Rightarrow> (Inl err, evs)
                 | (Inr (s, st1), evs) \<Rightarrow> (Inr (retval @ s, st1), evs))
         | table_oneline \<Rightarrow> traced_inline_table L ctx st t fmt
         | table_multiline_oneline \<Rightarrow> traced_ml_inline_table L ctx st t fmt
         | table_dotted \<Rightarrow>
             (if m_keys st = [] then (Inl MissingKey, [])
              else traced_dotted_table L ctx st t fmt [last (m_keys st)])
         | table_implicit \<Rightarrow>
             foreach_traced (\<lambda>(k, v) st.
               case check_implicit_child v of
                 Some err \<Rightarrow> (Inl err, [])
               | None \<Rightarrow>
                   (case traced_value L (ctx @ [In_table table_implicit]) (push_key k st) v of
                      (Inl err, evs) \<Rightarrow> (Inl err, evs)
                    | (Inr (s, st1), evs) \<Rightarrow> (Inr (s, pop_key st1), evs))) t st))"

| "traced_ml_table L ctx st t fmt =
     (case foreach_traced (\<lambda>(key, val) st.
             if format_later val then (Inr ([], st), [])
             else
               (let st1 = push_key key st;
                    head = format_comments st1 (comments val) (t_indent_type fmt)
                           @ format_indent st1 (t_indent_type fmt)
                in case traced_value L (ctx @ [In_table table_multiline]) st1 val of
                     (Inl err, evs) \<Rightarrow> (Inl err, evs)
                   | (Inr (s, st2), evs) \<Rightarrow>
                       (Inr (if is_dotted_table val then head @ s
                             else head @ format_key L (m_spec st) key @ '' = '' @ s @ [newline],
                             pop_key st2), evs)))
             t (indent_by (t_body_indent fmt) st) of
        (Inl err, evs) \<Rightarrow> (Inl err, evs)
      | (Inr (retval, st1), evs) \<Rightarrow>
          (let st2 = indent_by (- t_body_indent fmt) st1;
               retval1 = (if retval \<noteq> [] then retval @ [newline] else retval)
           in case foreach_traced (\<lambda>(key, val) st.
                     if \<not> format_later val then (Inr ([], st), [])
                     else
                       (case traced_value L (ctx @ [In_table table_multiline])
                               (push_key key st) val of
                          (Inl err, evs') \<Rightarrow> (Inl err, evs')
                        | (Inr (s, st3), evs') \<Rightarrow> (Inr (s, pop_key st3), evs')))
                     t st2 of
                (Inl err, evs') \<Rightarrow> (Inl err, evs @ evs')
              | (Inr (s, st3), evs') \<Rightarrow> (Inr (retval1 @ s, st3), evs @ evs')))"

| "traced_inline_table L ctx st t fmt =
     (case foreach_traced (\<lambda>(k, v) st.
             case traced_value L (ctx @ [In_table table_oneline])
                    (st\<lparr>m_force_inline := True\<rparr>) v of
               (Inl err, evs) \<Rightarrow> (Inl err, evs)
             | (Inr (s, st1), evs) \<Rightarrow>
                 (Inr (format_key L (m_spec st) k @ '' = '' @ s @ '', '', st1), evs))
             t st of
        (Inl err, evs) \<Rightarrow> (Inl err, evs)
      | (Inr (body, st1), evs) \<Rightarrow>
          (Inr (''{'' @ drop_last2 t body @ ''}'', st1\<lparr>m_force_inline := False\<rparr>), evs))"

| "traced_ml_inline_table L ctx st t fmt =
     (case foreach_traced (\<lambda>(k, v) st.
             let st1 = st\<lparr>m_force_inline := True\<rparr>;
                 head = format_comments st1 (comments v) (t_indent_type fmt)
                        @ format_indent st1 (t_indent_type fmt)
             in case traced_value L (ctx @ [In_table table_multiline_oneline]) st1 v of
                  (Inl err, evs) \<Rightarrow> (Inl err, evs)
                | (Inr (s, st2), evs) \<Rightarrow>
                    (Inr (head @ k @ '' = '' @ s @ '','' @ [newline], st2), evs))
             t (indent_by (t_body_indent fmt) st) of
        (Inl err, evs) \<Rightarrow> (Inl err, evs)
      | (Inr (body, st1), evs) \<Rightarrow>
          (let st2 = (indent_by (- t_body_indent fmt) st1)\<lparr>m_force_inline := False\<rparr>
           in (Inr (''{'' @ [newline] @ drop_last2 t body
                    @ format_indent (indent_by (t_closing_indent fmt) st2) (t_indent_type fmt)
                    @ ''}'', st2), evs)))"

| "traced_dotted_table L ctx st t fmt keys =
     foreach_traced (\<lambda>(key, val) st.
       case dotted_subtable val of
         Some (vt, vf) \<Rightarrow>
           traced_dotted_table L (ctx @ [In_table table_dotted]) st vt vf (keys @ [key])
       | None \<Rightarrow>
           (let head = format_comments st (comments val) (t_indent_type fmt)
                       @ format_indent st (t_indent_type fmt)
            in case format_keys L (m_spec st) (keys @ [key]) of
                 None \<Rightarrow> (Inl BadOptionalAccess, [])
               | Some ks \<Rightarrow>
                   (case traced_value L (ctx @ [In_table table_dotted])
                           (st\<lparr>m_force_inline := True\<rparr>) val of
                      (Inl err, evs) \<Rightarrow> (Inl err, evs)
                    | (Inr (s, st1), evs) \<Rightarrow>
                        (Inr (head @ ks @ '' = '' @ s @ [newline],
                              st1\<lparr>m_force_inline := False\<rparr>), evs)))) t st"
  by pat_completeness auto

termination traced_value
  apply (relation "measure (\<lambda>x. case x of
      Inl (Inl (L, g, st, v)) \<Rightarrow> 2 * size v
    | Inl (Inr (Inl (L, g, st, a, f, c))) \<Rightarrow> 2 * size_list size a + 1
    | Inl (Inr (Inr (L, g, st, t, f, c))) \<Rightarrow> 2 * size_list (size_prod (\<lambda>x. 0) size) t + 1
    | Inr (Inl (Inl (L, g, st, t, f))) \<Rightarrow> 2 * size_list (size_prod (\<lambda>x. 0) size) t
    | Inr (Inl (Inr (L, g, st, t, f))) \<Rightarrow> 2 * size_list (size_prod (\<lambda>x. 0) size) t
    | Inr (Inr (Inl (L, g, st, t, f))) \<Rightarrow> 2 * size_list (size_prod (\<lambda>x. 0) size) t
    | Inr (Inr (Inr (L, g, st, t, f, ks))) \<Rightarrow> 2 * size_list (size_prod (\<lambda>x. 0) size) t)")
                  apply (simp_all add: size_element_member size_table_member)
       apply (auto dest: size_entry_member size_dotted_entry)
  done

declare traced_array.simps [simp del]
declare traced_table.simps [simp del]
declare traced_ml_table.simps [simp del]
declare traced_inline_table.simps [simp del]
declare traced_ml_inline_table.simps [simp del]
declare traced_dotted_table.simps [simp del]

text \<open>Without the recursion points, a traced run is the run of the renderer.\<close>

lemma foreach_traced_erase:
  assumes "\<And>x s. x \<in> set xs \<Longrightarrow> fst (tb x s) = b x s"
  shows "fst (foreach_traced tb xs st) = foreach b xs st"
  using assms
proof (induction xs arbitrary: st)
  case Nil
  then show ?case by simp
next
  case (Cons x xs)
  have h: "fst (tb x st) = b x st" by (rule Cons.prems) simp
  have ih: "fst (foreach_traced tb xs s) = foreach b xs s" for s
    by (rule Cons.IH) (rule Cons.prems, simp)
  show ?case
  proof (cases "tb x st")
    case (Pair r evs)
    with h have b: "b x st = r" by simp
    show ?thesis
    proof (cases r)
      case (Inl err)
      with Pair b show ?thesis by simp
    next
      case (Inr p)
      obtain s st1 where p: "p = (s, st1)" by (cases p)
      obtain r' evs' where f: "foreach_traced tb xs st1 = (r', evs')"
        by (cases "foreach_traced tb xs st1")
      with ih[of st1] have "foreach b xs st1 = r'" by simp
      with Pair b Inr p f show ?thesis by (cases r') auto
    qed
  qed
qed

lemma erase_on_success:
  "fst r = r' \<Longrightarrow>
   fst (case r of (Inl err, evs) \<Rightarrow> (Inl err, h err evs)
               | (Inr (s, st1), evs) \<Rightarrow> (g s st1, k s st1 evs))
   = (case r' of Inl err \<Rightarrow> Inl err | Inr (s, st1) \<Rightarrow> g s st1)"
  by (cases r) (auto split: sum.splits)

lemma erase_on_success_let:
  "fst r = r' \<Longrightarrow>
   fst (case r of (Inl err, evs) \<Rightarrow> (Inl err, h err evs)
               | (Inr (s, st1), evs) \<Rightarrow> (let st2 = u s st1 in (g s st1 st2, k s st1 evs)))
   = (case r' of Inl err \<Rightarrow> Inl err | Inr (s, st1) \<Rightarrow> (let st2 = u s st1 in g s st1 st2))"
  by (cases r) (auto simp: Let_def split: sum.splits)

lemma erase_bind:
  "fst r = r' \<Longrightarrow>
   (\<And>s st1 evs. r = (Inr (s, st1), evs) \<Longrightarrow> fst (k s st1 evs) = g s st1) \<Longrightarrow>
   fst (case r of (Inl err, evs) \<Rightarrow> (Inl err, h err evs)
               | (Inr (s, st1), evs) \<Rightarrow> k s st1 evs)
   = (case r' of Inl err \<Rightarrow> Inl err | Inr (s, st1) \<Rightarrow> g s st1)"
  by (cases r) (auto split: sum.splits)

lemma traced_erase:
  "fst (traced_value L1 c1 st1 v) = serialize_value L1 st1 v"
  "fst (traced_array L2 c2 st2 a af ac) = serialize_array L2 st2 a af ac"
  "fst (traced_table L3 c3 st3 t3 tf3 tc3) = serialize_table L3 st3 t3 tf3 tc3"
  "fst (traced_ml_table L4 c4 st4 t4 tf4) = format_ml_table L4 st4 t4 tf4"
  "fst (traced_inline_table L5 c5 st5 t5 tf5) = format_inline_table L5 st5 t5 tf5"
  "fst (traced_ml_inline_table L6 c6 st6 t6 tf6) = format_ml_inline_table L6 st6 t6 tf6"
  "fst (traced_dotted_table L7 c7 st7 t7 tf7 ks7) = format_dotted_table L7 st7 t7 tf7 ks7"
proof (induction L1 c1 st1 v and L2 c2 st2 a af ac and L3 c3 st3 t3 tf3 tc3
    and L4 c4 st4 t4 tf4 and L5 c5 st5 t5 tf5 and L6 c6 st6 t6 tf6 and L7 c7 st7 t7 tf7 ks7
    rule: traced_value_traced_array_traced_table_traced_ml_table_traced_inline_table_traced_ml_inline_table_traced_dotted_table.induct)
  case (1 L ctx st a f c)
  then show ?case by (cases "traced_array L ctx st a f c") simp
next
  case (2 L ctx st t f c)
  from "2.IH"[OF refl refl] show ?case
    by (simp add: Let_def erase_on_success)
next
  case (4 L ctx st a fmt com)
  show ?case
  proof (cases "array_form L st a fmt com")
    case (Inl err)
    then show ?thesis by (simp add: traced_array.simps serialize_array.simps)
  next
    case (Inr f)
    show ?thesis
    proof (cases "f = array_of_tables")
      case True
      show ?thesis
      proof (cases "m_keys st = []")
        case True
        with Inr \<open>f = array_of_tables\<close> show ?thesis
          by (simp add: traced_array.simps serialize_array.simps)
      next
        case False
        show ?thesis
          unfolding traced_array.simps[of L ctx st a fmt com]
            serialize_array.simps[of L st a fmt com]
          apply (simp add: Inr True False)
          apply (rule foreach_traced_erase)
          subgoal for x s
            apply (cases x)
            apply (simp_all add: Let_def split: option.splits)
            apply (intro allI impI)
            apply (rule erase_on_success)
            apply (rule "4.IH"(1)[OF Inr True False _ _ refl refl])
            apply simp_all
            done
          done
      qed
    next
      case False
      note naot = False
      show ?thesis
      proof (cases "f = array_oneline")
        case True
        show ?thesis
          unfolding traced_array.simps[of L ctx st a fmt com]
            serialize_array.simps[of L st a fmt com]
          apply (simp add: Inr naot True)
          apply (rule erase_on_success)
          apply (rule foreach_traced_erase)
          apply (rule erase_on_success)
          apply (rule "4.IH"(2)[OF Inr naot True])
          apply assumption
          done
      next
        case False
        show ?thesis
          unfolding traced_array.simps[of L ctx st a fmt com]
            serialize_array.simps[of L st a fmt com]
          apply (simp add: Inr naot False Let_def)
          apply (rule erase_on_success_let)
          apply (rule foreach_traced_erase)
          apply (rule erase_on_success)
          apply (rule "4.IH"(3)[OF Inr naot False _ refl refl])
          apply assumption
          done
      qed
    qed
  qed
next
  case (5 L ctx st t fmt com)
  show ?case
  proof (cases "m_force_inline st")
    case True
    with "5.IH"(1,2) show ?thesis
      by (simp add: traced_table.simps serialize_table.simps)
  next
    case False
    note nf = False
    show ?thesis
    proof (cases "t_fmt fmt")
      case table_multiline
      show ?thesis
        unfolding traced_table.simps[of L ctx st t fmt com]
          serialize_table.simps[of L st t fmt com]
        apply (simp add: nf table_multiline Let_def)
        apply (rule erase_on_success)
        apply (rule "5.IH"(3)[OF nf table_multiline refl])
        done
    next
      case table_oneline
      with nf "5.IH"(4) show ?thesis
        by (simp add: traced_table.simps serialize_table.simps)
    next
      case table_multiline_oneline
      with nf "5.IH"(5) show ?thesis
        by (simp add: traced_table.simps serialize_table.simps)
    next
      case table_dotted
      with nf "5.IH"(6) show ?thesis
        by (simp add: traced_table.simps serialize_table.simps)
    next
      case table_implicit
      show ?thesis
        unfolding traced_table.simps[of L ctx st t fmt com]
          serialize_table.simps[of L st t fmt com]
        apply (simp add: nf table_implicit)
        apply (rule foreach_traced_erase)
        subgoal premises p for x s
        proof -
          obtain k v where kv: "x = (k, v)" by (cases x)
          show ?thesis
          proof (cases "check_implicit_child v")
            case (Some err)
            then show ?thesis by (simp add: kv)
          next
            case None
            have e: "fst (traced_value L (ctx @ [In_table table_implicit]) (push_key k s) v)
                     = serialize_value L (push_key k s) v"
              by (rule "5.IH"(7)[OF nf table_implicit p kv[symmetric] None])
            show ?thesis by (simp add: kv None erase_on_success[OF e])
          qed
        qed
        done
    qed
  qed
next
  case (6 L ctx st t fmt)
  show ?case
    unfolding traced_ml_table.simps[of L ctx st t fmt] format_ml_table.simps[of L st t fmt]
    apply (rule erase_bind)
     apply (rule foreach_traced_erase)
    subgoal premises p for x s
    proof -
      obtain k v where kv: "x = (k, v)" by (cases x)
      show ?thesis
      proof (cases "format_later v")
        case True
        then show ?thesis by (simp add: kv)
      next
        case False
        have e: "fst (traced_value L (ctx @ [In_table table_multiline]) (push_key k s) v)
                 = serialize_value L (push_key k s) v"
          by (rule "6.IH"(1)[OF p kv[symmetric] False refl refl])
        show ?thesis by (simp add: kv False Let_def erase_on_success[OF e])
      qed
    qed
    subgoal premises f1 for retval st1 evs
      apply (simp only: Let_def)
      apply (rule erase_on_success)
      apply (rule foreach_traced_erase)
      subgoal premises p for x s
      proof -
        obtain k v where kv: "x = (k, v)" by (cases x)
        show ?thesis
        proof (cases "format_later v")
          case False
          then show ?thesis by (simp add: kv)
        next
          case True
          then have nn: "\<not> \<not> format_later v" by simp
          have e: "fst (traced_value L (ctx @ [In_table table_multiline]) (push_key k s) v)
                   = serialize_value L (push_key k s) v"
            by (rule "6.IH"(2)[OF f1[symmetric] refl refl refl refl p kv[symmetric] nn])
          show ?thesis by (simp add: kv True erase_on_success[OF e])
        qed
      qed
      done
    done
next
  case (7 L ctx st t fmt)
  show ?case
    unfolding traced_inline_table.simps[of L ctx st t fmt]
      format_inline_table.simps[of L st t fmt]
    apply (rule erase_on_success)
    apply (rule foreach_traced_erase)
    subgoal premises p for x s
    proof -
      obtain k v where kv: "x = (k, v)" by (cases x)
      have e: "fst (traced_value L (ctx @ [In_table table_oneline])
                     (s\<lparr>m_force_inline := True\<rparr>) v)
               = serialize_value L (s\<lparr>m_force_inline := True\<rparr>) v"
        by (rule "7.IH"[OF p kv[symmetric]])
      show ?thesis by (simp add: kv erase_on_success[OF e])
    qed
    done
next
  case (8 L ctx st t fmt)
  show ?case
    unfolding traced_ml_inline_table.simps[of L ctx st t fmt]
      format_ml_inline_table.simps[of L st t fmt]
    apply (rule erase_on_success_let)
    apply (rule foreach_traced_erase)
    subgoal premises p for x s
    proof -
      obtain k v where kv: "x = (k, v)" by (cases x)
      have e: "fst (traced_value L (ctx @ [In_table table_multiline_oneline])
                     (s\<lparr>m_force_inline := True\<rparr>) v)
               = serialize_value L (s\<lparr>m_force_inline := True\<rparr>) v"
        by (rule "8.IH"[OF p kv[symmetric] refl refl])
      show ?thesis by (simp add: kv Let_def erase_on_success[OF e])
    qed
    done
next
  case (9 L ctx st t fmt keys)
  show ?case
    unfolding traced_dotted_table.simps[of L ctx st t fmt keys]
      format_dotted_table.simps[of L st t fmt keys]
    apply (rule foreach_traced_erase)
    subgoal premises p for x s
    proof -
      obtain k v where kv: "x = (k, v)" by (cases x)
      show ?thesis
      proof (cases "dotted_subtable v")
        case (Some q)
        obtain vt vf where q: "q = (vt, vf)" by (cases q)
        from "9.IH"(2)[OF p kv[symmetric] Some q[symmetric]] show ?thesis
          by (simp add: kv Some q)
      next
        case None
        show ?thesis
        proof (cases "format_keys L (m_spec s) (keys @ [k])")
          case nk: None
          then show ?thesis by (simp add: kv None Let_def)
        next
          case (Some ks)
          have e: "fst (traced_value L (ctx @ [In_table table_dotted])
                         (s\<lparr>m_force_inline := True\<rparr>) v)
                   = serialize_value L (s\<lparr>m_force_inline := True\<rparr>) v"
            by (rule "9.IH"(1)[OF p kv[symmetric] None refl Some])
          show ?thesis by (simp add: kv None Some Let_def erase_on_success[OF e])
        qed
      qed
    qed
    done
qed simp_all

text \<open>
  At a recursion point the flag is as claimed if it is true exactly when one of the
  containers around the value is an inline-context container.
\<close>

definition flag_ok :: "event \<Rightarrow> bool" where
  "flag_ok ev = (snd ev = list_ex inline_context (fst ev))"

text \<open>
  A loop passes recursion points with a property if every round does so from a serializer
  that satisfies an invariant of the rounds.
\<close>

lemma foreach_traced_events:
  assumes "I st"
    and "\<And>x s. x \<in> set xs \<Longrightarrow> I s \<Longrightarrow> list_all P (snd (tb x s))"
    and "\<And>x s r s1 evs. x \<in> set xs \<Longrightarrow> I s \<Longrightarrow> tb x s = (Inr (r, s1), evs) \<Longrightarrow> I s1"
  shows "list_all P (snd (foreach_traced tb xs st))
         \<and> (\<forall>r st' evs. foreach_traced tb xs st = (Inr (r, st'), evs) \<longrightarrow> I st')"
  using assms
proof (induction xs arbitrary: st)
  case Nil
  then show ?case by simp
next
  case (Cons x xs)
  have h: "list_all P (snd (tb x st))" by (rule Cons.prems(2)) (simp_all add: Cons.prems(1))
  show ?case
  proof (cases "tb x st")
    case (Pair r evs0)
    show ?thesis
    proof (cases r)
      case (Inl err)
      with Pair h show ?thesis by simp
    next
      case (Inr p)
      obtain s st1 where p: "p = (s, st1)" by (cases p)
      have i1: "I st1"
        by (rule Cons.prems(3)[of x st s st1 evs0]) (simp_all add: Cons.prems(1) Pair Inr p)
      have ih: "list_all P (snd (foreach_traced tb xs st1))
         \<and> (\<forall>r st' evs. foreach_traced tb xs st1 = (Inr (r, st'), evs) \<longrightarrow> I st')"
      proof (rule Cons.IH[OF i1])
        fix y s0 assume "y \<in> set xs" "I s0"
        then show "list_all P (snd (tb y s0))" using Cons.prems(2)[of y s0] by simp
      next
        fix y s0 r0 s1 evs1
        assume "y \<in> set xs" "I s0" "tb y s0 = (Inr (r0, s1), evs1)"
        then show "I s1" using Cons.prems(3)[of y s0 r0 s1 evs1] by simp
      qed
      obtain r' evs' where f: "foreach_traced tb xs st1 = (r', evs')"
        by (cases "foreach_traced tb xs st1")
      with ih Pair Inr p h show ?thesis by (cases r') auto
    qed
  qed
qed

lemma foreach_traced_all:
  assumes "\<And>x s. x \<in> set xs \<Longrightarrow> list_all P (snd (tb x s))"
  shows "list_all P (snd (foreach_traced tb xs st))"
  using foreach_traced_events[of "\<lambda>s. True" st xs P tb] assms by simp

lemma all_on_success:
  "list_all P (snd r) \<Longrightarrow>
   list_all P (snd (case r of (Inl err, evs) \<Rightarrow> (Inl err, evs)
                            | (Inr (s, st1), evs) \<Rightarrow> (g s st1, evs)))"
  by (cases r) (auto split: sum.splits)

lemma all_on_success_let:
  "list_all P (snd r) \<Longrightarrow>
   list_all P (snd (case r of (Inl err, evs) \<Rightarrow> (Inl err, evs)
                            | (Inr (s, st1), evs) \<Rightarrow> (let st2 = u s st1 in (g s st1 st2, evs))))"
  by (cases r) (auto simp: Let_def split: sum.splits)

lemma all_bind:
  assumes "list_all P (snd r) \<and> (\<forall>s st1 evs. r = (Inr (s, st1), evs) \<longrightarrow> I st1)"
    and k: "\<And>s st1 evs. r = (Inr (s, st1), evs) \<Longrightarrow> I st1 \<Longrightarrow> list_all P evs
              \<Longrightarrow> list_all P (snd (k s st1 evs))"
  shows "list_all P (snd (case r of (Inl err, evs) \<Rightarrow> (Inl err, evs)
                            | (Inr (s, st1), evs) \<Rightarrow> k s st1 evs))"
proof (cases r)
  case (Pair x evs)
  show ?thesis
  proof (cases x)
    case (Inl err)
    with Pair assms(1) show ?thesis by simp
  next
    case (Inr p)
    obtain s st1 where p: "p = (s, st1)" by (cases p)
    from assms(1) Pair Inr p have "I st1" "list_all P evs" by simp_all
    from k[OF _ this, of s] Pair Inr p show ?thesis by simp
  qed
qed

lemma all_append_on_success:
  "list_all P evs \<Longrightarrow> list_all P (snd r) \<Longrightarrow>
   list_all P (snd (case r of (Inl err, evs') \<Rightarrow> (Inl err, evs @ evs')
                            | (Inr (s, st1), evs') \<Rightarrow> (g s st1, evs @ evs')))"
  by (cases r) (auto split: sum.splits)

lemma traced_value_same:
  assumes "\<not> m_force_inline st" and "traced_value L ctx st v = (Inr (s, st'), evs)"
  shows "st' = st"
proof -
  from assms(2) have "fst (traced_value L ctx st v) = Inr (s, st')" by simp
  then have "serialize_value L st v = Inr (s, st')" by (simp add: traced_erase(1))
  with assms(1) show ?thesis by (rule serialize_value_same)
qed

lemma traced_ml_table_same:
  assumes "\<not> m_force_inline st" and "traced_ml_table L ctx st t f = (Inr (s, st'), evs)"
  shows "st' = st"
proof -
  from assms(2) have "fst (traced_ml_table L ctx st t f) = Inr (s, st')" by simp
  then have "format_ml_table L st t f = Inr (s, st')" by (simp add: traced_erase(4))
  with assms(1) frame(4)[of st L t f] show ?thesis by blast
qed

lemma traced_flags:
  "m_force_inline st1 = list_ex inline_context c1
   \<longrightarrow> list_all flag_ok (snd (traced_value L1 c1 st1 v))"
  "m_force_inline st2 = list_ex inline_context c2
   \<longrightarrow> list_all flag_ok (snd (traced_array L2 c2 st2 a af ac))"
  "m_force_inline st3 = list_ex inline_context c3
   \<longrightarrow> list_all flag_ok (snd (traced_table L3 c3 st3 t3 tf3 tc3))"
  "\<not> m_force_inline st4 \<and> \<not> list_ex inline_context c4
   \<longrightarrow> list_all flag_ok (snd (traced_ml_table L4 c4 st4 t4 tf4))"
  "list_all flag_ok (snd (traced_inline_table L5 c5 st5 t5 tf5))"
  "list_all flag_ok (snd (traced_ml_inline_table L6 c6 st6 t6 tf6))"
  "list_all flag_ok (snd (traced_dotted_table L7 c7 st7 t7 tf7 ks7))"
proof (induction L1 c1 st1 v and L2 c2 st2 a af ac and L3 c3 st3 t3 tf3 tc3
    and L4 c4 st4 t4 tf4 and L5 c5 st5 t5 tf5 and L6 c6 st6 t6 tf6 and L7 c7 st7 t7 tf7 ks7
    rule: traced_value_traced_array_traced_table_traced_ml_table_traced_inline_table_traced_ml_inline_table_traced_dotted_table.induct)
  case (1 L ctx st a f c)
  then show ?case
    by (cases "traced_array L ctx st a f c") (simp add: flag_ok_def)
next
  case (2 L ctx st t f c)
  from "2.IH"[OF refl refl] show ?case
    by (cases "traced_table L ctx st t f c")
      (auto simp: flag_ok_def Let_def split: sum.splits)
next
  case (4 L ctx st a fmt com)
  show ?case
  proof
    assume fl: "m_force_inline st = list_ex inline_context ctx"
    show "list_all flag_ok (snd (traced_array L ctx st a fmt com))"
    proof (cases "array_form L st a fmt com")
      case (Inl err)
      then show ?thesis by (simp add: traced_array.simps)
    next
      case (Inr f)
      show ?thesis
      proof (cases "f = array_of_tables")
        case True
        with Inr have nf: "\<not> m_force_inline st" by (auto dest: array_form_aot_unforced)
        with fl have nc: "\<not> list_ex inline_context (ctx @ [In_array array_of_tables])"
          by simp
        show ?thesis
        proof (cases "m_keys st = []")
          case True
          with Inr \<open>f = array_of_tables\<close> show ?thesis by (simp add: traced_array.simps)
        next
          case False
          show ?thesis
            unfolding traced_array.simps[of L ctx st a fmt com]
            apply (simp add: Inr True False)
            apply (rule foreach_traced_events[where I = "\<lambda>s. \<not> m_force_inline s",
                  THEN conjunct1])
              apply (rule nf)
            subgoal premises p for x s
            proof (cases x)
              case (Table t tf tc)
              show ?thesis
              proof (cases "format_keys L (m_spec s) (m_keys s)")
                case None
                then show ?thesis by (simp add: Table Let_def)
              next
                case (Some ks)
                from "4.IH"(1)[OF Inr True False p(1) Table refl refl Some] p(2) nc
                have "list_all flag_ok
                        (snd (traced_ml_table L (ctx @ [In_array array_of_tables]) s t tf))"
                  by simp
                then show ?thesis by (simp add: Table Some Let_def all_on_success)
              qed
            qed simp_all
            subgoal premises p for x s r s1 evs
            proof (cases x)
              case (Table t tf tc)
              with p(3) obtain r' where
                "traced_ml_table L (ctx @ [In_array array_of_tables]) s t tf
                 = (Inr (r', s1), evs)"
                by (auto simp: Let_def split: option.splits prod.splits sum.splits)
              from traced_ml_table_same[OF p(2) this] p(2) show ?thesis by simp
            qed (use p(3) in simp_all)
            done
        qed
      next
        case False
        note naot = False
        show ?thesis
        proof (cases "f = array_oneline")
          case True
          show ?thesis
            unfolding traced_array.simps[of L ctx st a fmt com]
            apply (simp add: Inr naot True)
            apply (rule all_on_success)
            apply (rule foreach_traced_all)
            apply (rule all_on_success)
            subgoal premises p for x s
              using "4.IH"(2)[OF Inr naot True p, of s] by simp
            done
        next
          case False
          show ?thesis
            unfolding traced_array.simps[of L ctx st a fmt com]
            apply (simp add: Inr naot False Let_def)
            apply (rule all_on_success_let)
            apply (rule foreach_traced_all)
            apply (rule all_on_success)
            subgoal premises p for x s
              using "4.IH"(3)[OF Inr naot False p refl refl, of s] by simp
            done
        qed
      qed
    qed
  qed
next
  case (5 L ctx st t fmt com)
  show ?case
  proof
    assume fl: "m_force_inline st = list_ex inline_context ctx"
    show "list_all flag_ok (snd (traced_table L ctx st t fmt com))"
    proof (cases "m_force_inline st")
      case True
      with "5.IH"(1,2) show ?thesis by (simp add: traced_table.simps)
    next
      case False
      note nf = False
      with fl have nc: "\<not> list_ex inline_context ctx" by simp
      show ?thesis
      proof (cases "t_fmt fmt")
        case table_multiline
        from "5.IH"(3)[OF nf table_multiline refl] nf nc
        have "list_all flag_ok (snd (traced_ml_table L ctx st t fmt))" by simp
        then show ?thesis
          by (simp add: traced_table.simps[of L ctx st t fmt com] nf table_multiline Let_def
              all_on_success)
      next
        case table_oneline
        with nf "5.IH"(4) show ?thesis by (simp add: traced_table.simps)
      next
        case table_multiline_oneline
        with nf "5.IH"(5) show ?thesis by (simp add: traced_table.simps)
      next
        case table_dotted
        with nf "5.IH"(6) show ?thesis by (simp add: traced_table.simps)
      next
        case table_implicit
        show ?thesis
          unfolding traced_table.simps[of L ctx st t fmt com]
          apply (simp add: nf table_implicit)
          apply (rule foreach_traced_events[where I = "\<lambda>s. \<not> m_force_inline s",
                THEN conjunct1])
            apply (rule nf)
          subgoal premises p for x s
          proof -
            obtain k v where kv: "x = (k, v)" by (cases x)
            show ?thesis
            proof (cases "check_implicit_child v")
              case (Some err)
              then show ?thesis by (simp add: kv)
            next
              case None
              from "5.IH"(7)[OF nf table_implicit p(1) kv[symmetric] None, of s] p(2) nc
              have "list_all flag_ok
                      (snd (traced_value L (ctx @ [In_table table_implicit]) (push_key k s) v))"
                by (simp add: push_key_def)
              then show ?thesis by (simp add: kv None all_on_success)
            qed
          qed
          subgoal premises p for x s r s1 evs
          proof -
            obtain k v where kv: "x = (k, v)" by (cases x)
            have nfk: "\<not> m_force_inline (push_key k s)" using p(2) by (simp add: push_key_def)
            from p(3) kv obtain r' st2 where
              tv: "traced_value L (ctx @ [In_table table_implicit]) (push_key k s) v
                   = (Inr (r', st2), evs)" and s1: "s1 = pop_key st2"
              by (auto split: option.splits prod.splits sum.splits)
            from traced_value_same[OF nfk tv] s1 p(2) show ?thesis by simp
          qed
          done
      qed
    qed
  qed
next
  case (6 L ctx st t fmt)
  show ?case
  proof
    assume a: "\<not> m_force_inline st \<and> \<not> list_ex inline_context ctx"
    then have nf: "\<not> m_force_inline (indent_by (t_body_indent fmt) st)"
      and nc: "\<not> list_ex inline_context (ctx @ [In_table table_multiline])"
      by (simp_all add: indent_by_def)
    show "list_all flag_ok (snd (traced_ml_table L ctx st t fmt))"
      unfolding traced_ml_table.simps[of L ctx st t fmt]
      apply (rule all_bind[where I = "\<lambda>s. \<not> m_force_inline s"])
       apply (rule foreach_traced_events[where I = "\<lambda>s. \<not> m_force_inline s"])
         apply (rule nf)
      subgoal premises p for x s
      proof -
        obtain k v where kv: "x = (k, v)" by (cases x)
        show ?thesis
        proof (cases "format_later v")
          case True
          then show ?thesis by (simp add: kv)
        next
          case False
          from "6.IH"(1)[OF p(1) kv[symmetric] False refl refl, of s] p(2) nc
          have "list_all flag_ok
                  (snd (traced_value L (ctx @ [In_table table_multiline]) (push_key k s) v))"
            by (simp add: push_key_def)
          then show ?thesis by (simp add: kv False Let_def all_on_success)
        qed
      qed
      subgoal premises p for x s r s1 evs
      proof -
        obtain k v where kv: "x = (k, v)" by (cases x)
        have nfk: "\<not> m_force_inline (push_key k s)" using p(2) by (simp add: push_key_def)
        show ?thesis
        proof (cases "format_later v")
          case True
          with p(2,3) kv show ?thesis by simp
        next
          case False
          with p(3) kv obtain r' st2 where
            tv: "traced_value L (ctx @ [In_table table_multiline]) (push_key k s) v
                 = (Inr (r', st2), evs)" and s1: "s1 = pop_key st2"
            by (auto simp: Let_def split: prod.splits sum.splits)
          from traced_value_same[OF nfk tv] s1 p(2) show ?thesis by simp
        qed
      qed
      subgoal premises q for retval st1 evs
        apply (simp only: Let_def)
        apply (rule all_append_on_success[OF q(3)])
        apply (rule foreach_traced_events[where I = "\<lambda>s. \<not> m_force_inline s",
              THEN conjunct1])
        subgoal using q(2) by (simp add: indent_by_def)
        subgoal premises p for x s
        proof -
          obtain k v where kv: "x = (k, v)" by (cases x)
          show ?thesis
          proof (cases "format_later v")
            case False
            then show ?thesis by (simp add: kv)
          next
            case True
            then have nn: "\<not> \<not> format_later v" by simp
            from "6.IH"(2)[OF q(1)[symmetric] refl refl refl refl p(1) kv[symmetric] nn, of s]
              p(2) nc
            have "list_all flag_ok
                    (snd (traced_value L (ctx @ [In_table table_multiline]) (push_key k s) v))"
              by (simp add: push_key_def)
            then show ?thesis by (simp add: kv True all_on_success)
          qed
        qed
        subgoal premises p for x s r s1 evs
        proof -
          obtain k v where kv: "x = (k, v)" by (cases x)
          have nfk: "\<not> m_force_inline (push_key k s)" using p(2) by (simp add: push_key_def)
          show ?thesis
          proof (cases "format_later v")
            case False
            with p(2,3) kv show ?thesis by simp
          next
            case True
            with p(3) kv obtain r' st2 where
              tv: "traced_value L (ctx @ [In_table table_multiline]) (push_key k s) v
                   = (Inr (r', st2), evs)" and s1: "s1 = pop_key st2"
              by (auto split: prod.splits sum.splits)
            from traced_value_same[OF nfk tv] s1 p(2) show ?thesis by simp
          qed
        qed
        done
      done
  qed
next
  case (7 L ctx st t fmt)
  show ?case
    unfolding traced_inline_table.simps[of L ctx st t fmt]
    apply (rule all_on_success)
    apply (rule foreach_traced_all)
    subgoal premises p for x s
    proof -
      obtain k v where kv: "x = (k, v)" by (cases x)
      from "7.IH"[OF p kv[symmetric], of s]
      have "list_all flag_ok
              (snd (traced_value L (ctx @ [In_table table_oneline])
                     (s\<lparr>m_force_inline := True\<rparr>) v))"
        by simp
      then show ?thesis by (simp add: kv all_on_success)
    qed
    done
next
  case (8 L ctx st t fmt)
  show ?case
    unfolding traced_ml_inline_table.simps[of L ctx st t fmt]
    apply (rule all_on_success_let)
    apply (rule foreach_traced_all)
    subgoal premises p for x s
    proof -
      obtain k v where kv: "x = (k, v)" by (cases x)
      from "8.IH"[OF p kv[symmetric] refl refl, of s]
      have "list_all flag_ok
              (snd (traced_value L (ctx @ [In_table table_multiline_oneline])
                     (s\<lparr>m_force_inline := True\<rparr>) v))"
        by simp
      then show ?thesis by (simp add: kv Let_def all_on_success)
    qed
    done
next
  case (9 L ctx st t fmt keys)
  show ?case
    unfolding traced_dotted_table.simps[of L ctx st t fmt keys]
    apply (rule foreach_traced_all)
    subgoal premises p for x s
    proof -
      obtain k v where kv: "x = (k, v)" by (cases x)
      show ?thesis
      proof (cases "dotted_subtable v")
        case (Some q)
        obtain vt vf where q: "q = (vt, vf)" by (cases q)
        from "9.IH"(2)[OF p kv[symmetric] Some q[symmetric], of s] show ?thesis
          by (simp add: kv Some q)
      next
        case None
        show ?thesis
        proof (cases "format_keys L (m_spec s) (keys @ [k])")
          case nk: None
          then show ?thesis by (simp add: kv None Let_def)
        next
          case (Some ks)
          from "9.IH"(1)[OF p kv[symmetric] None refl Some]
          have "list_all flag_ok
                  (snd (traced_value L (ctx @ [In_table table_dotted])
                         (s\<lparr>m_force_inline := True\<rparr>) v))"
            by simp
          then show ?thesis by (simp add: kv None Some Let_def all_on_success)
        qed
      qed
    qed
    done
qed (simp_all add: flag_ok_def)

lemma fold_push_key_unforced:
  "m_force_inline (fold push_key ks st) = m_force_inline st"
  by (induction ks arbitrary: st) (simp_all add: push_key_def)

text \<open>
  C2. The traced driver is the driver: it returns what the driver returns, from every
  serializer and for every value, and records every call of the driver made on the way.
  If \<^verbatim>\<open>force_inline_\<close> at the outer call is true exactly when one of the containers
  around the value is an inline-context container, then so it is at every recursion point
  of the run: the flag is true exactly for the descendants of a one-line array, of a
  multi-line array, of a one-line or multi-line one-line table or of a dotted table, also
  for the elements that follow a nested inline container, whose renderer has cleared the
  flag on its return. The entry points \<^verbatim>\<open>toml::format\<close> call the driver with no container
  around the value and the flag cleared, with or without keys.
\<close>

theorem force_inline_flag_at_recursion_points:
  "fst (traced_value L ctx st v) = serialize_value L st v
   \<and> (m_force_inline st = list_ex inline_context ctx
        \<longrightarrow> list_all flag_ok (snd (traced_value L ctx st v)))
   \<and> list_all flag_ok (snd (traced_value L [] (new_serializer sp) v))
   \<and> list_all flag_ok (snd (traced_value L [] (push_key k (new_serializer sp)) v))
   \<and> list_all flag_ok (snd (traced_value L [] (fold push_key ks (new_serializer sp)) v))"
proof (intro conjI)
  show "fst (traced_value L ctx st v) = serialize_value L st v"
    by (rule traced_erase(1))
  show "m_force_inline st = list_ex inline_context ctx
        \<longrightarrow> list_all flag_ok (snd (traced_value L ctx st v))"
    by (rule traced_flags(1))
  show "list_all flag_ok (snd (traced_value L [] (new_serializer sp) v))"
    using traced_flags(1)[of "new_serializer sp" "[]" L v] by (simp add: new_serializer_def)
  show "list_all flag_ok (snd (traced_value L [] (push_key k (new_serializer sp)) v))"
    using traced_flags(1)[of "push_key k (new_serializer sp)" "[]" L v]
    by (simp add: new_serializer_def push_key_def)
  show "list_all flag_ok (snd (traced_value L [] (fold push_key ks (new_serializer sp)) v))"
    using traced_flags(1)[of "fold push_key ks (new_serializer sp)" "[]" L v]
      fold_push_key_unforced[of ks "new_serializer sp"]
    by (simp add: new_serializer_def)
qed

theorem force_inline_flag_at_recursion_points_witness:
  "m_force_inline (new_serializer default_version) = list_ex inline_context []
   \<and> traced_value sample_library [] (new_serializer default_version)
       (Array [Array [Integer 1 sample_integer_hint discard_comments]
                 (sample_array_hint array_oneline) discard_comments,
               Table [(''a'', Integer 2 sample_integer_hint discard_comments)]
                 (sample_table_hint table_multiline) discard_comments]
          (sample_array_hint array_oneline) discard_comments)
     = (Inr (''[[1], {a = 2}]'', new_serializer default_version),
        [([], False),
         ([In_array array_oneline], True),
         ([In_array array_oneline, In_array array_oneline], True),
         ([In_array array_oneline], True),
         ([In_array array_oneline, In_table table_oneline], True)])
   \<and> list_all flag_ok
        [([], False),
         ([In_array array_oneline], True),
         ([In_array array_oneline, In_array array_oneline], True),
         ([In_array array_oneline], True),
         ([In_array array_oneline, In_table table_oneline], True)]"
proof -
  let ?v = "Array [Array [Integer 1 sample_integer_hint discard_comments]
                 (sample_array_hint array_oneline) discard_comments,
               Table [(''a'', Integer 2 sample_integer_hint discard_comments)]
                 (sample_table_hint table_multiline) discard_comments]
          (sample_array_hint array_oneline) discard_comments"
  have n: "m_force_inline (new_serializer default_version) = list_ex inline_context []"
    by (simp add: new_serializer_def)
  have e: "traced_value sample_library [] (new_serializer default_version) ?v
     = (Inr (''[[1], {a = 2}]'', new_serializer default_version),
        [([], False),
         ([In_array array_oneline], True),
         ([In_array array_oneline, In_array array_oneline], True),
         ([In_array array_oneline], True),
         ([In_array array_oneline, In_table table_oneline], True)])"
    by code_simp
  note w = force_inline_flag_at_recursion_points[where L = sample_library and ctx = "[]"
      and st = "new_serializer default_version" and v = ?v,
      THEN conjunct2, THEN conjunct1]
  from w n have "list_all flag_ok
      (snd (traced_value sample_library [] (new_serializer default_version) ?v))"
    by blast
  with n e show ?thesis by simp
qed

subsection \<open>Table renderer: the children of an implicit table\<close>

text \<open>
  What the check does for every child: a child that is neither a table nor an array of
  tables, and a table whose form is neither multiline nor implicit, raise
  ImplicitTableChild; an array of tables passes if all its elements have the multiline
  form, and raises the type error of the accessor otherwise.
\<close>

lemma check_implicit_elements_cases:
  "list_all is_table a \<Longrightarrow> \<not> is_table v \<Longrightarrow>
   check_implicit_elements v a =
     (if list_all (\<lambda>e. map_sum id t_fmt (as_table_fmt e) = Inr table_multiline) a
      then None else Some BadCast)"
proof (induction a)
  case Nil
  then show ?case by simp
next
  case (Cons e a)
  from Cons.prems(1) obtain t f c where e: "e = Table t f c" by (cases e) auto
  from Cons.prems(2) have v: "as_table_fmt v = Inl BadCast" by (cases v) auto
  from Cons show ?case by (simp add: e v)
qed

lemma check_implicit_child_cases:
  "check_implicit_child v =
     (case v of
        Table t f c \<Rightarrow>
          (if t_fmt f \<noteq> table_multiline \<and> t_fmt f \<noteq> table_implicit
           then Some ImplicitTableChild else None)
      | Array a f c \<Rightarrow>
          (if a = [] \<or> \<not> list_all is_table a then Some ImplicitTableChild
           else if list_all (\<lambda>e. map_sum id t_fmt (as_table_fmt e) = Inr table_multiline) a
           then None else Some BadCast)
      | _ \<Rightarrow> Some ImplicitTableChild)"
  by (cases v) (auto simp: check_implicit_child_def check_implicit_elements_cases)

text \<open>
  C1, at an implicit table whose only child is an array of one table. The check of the
  elements reads the form of the element and then asks the array itself for a table hint
  (\<^verbatim>\<open>v.as_table_fmt()\<close> where the branch for a single table has the table's own hint),
  so an element of implicit form, which the claim admits, ends the serialization with the
  type error of the accessor, and an element of one-line form ends it with the same type
  error instead of ImplicitTableChild. Only an element of multiline form passes.
\<close>

theorem implicit_table_array_child:
  "format sample_library
     (Table [(''a'', Array [Table [] (sample_table_hint table_implicit) discard_comments]
                       (sample_array_hint array_default_format) discard_comments)]
        (sample_table_hint table_implicit) discard_comments) default_version
     = Inl BadCast
   \<and> format sample_library
     (Table [(''a'', Array [Table [] (sample_table_hint table_oneline) discard_comments]
                       (sample_array_hint array_default_format) discard_comments)]
        (sample_table_hint table_implicit) discard_comments) default_version
     = Inl BadCast
   \<and> format sample_library
     (Table [(''a'', Array [Table [] (sample_table_hint table_multiline) discard_comments]
                       (sample_array_hint array_default_format) discard_comments)]
        (sample_table_hint table_implicit) discard_comments) default_version
     = Inr (''[[a]]'' @ [newline])"
  by (simp add: format_def serialize_table.simps serialize_array.simps format_ml_table.simps
      check_implicit_child_def array_form_def resolved_form_def resolve_default_format_def
      format_keys_def format_key_def sample_library_def
      sample_table_hint_def sample_array_hint_def new_serializer_def indent_by_def
      push_key_def pop_key_def format_indent_def newline_def)

end
